theory Spec2Isabelle
  imports Main "HOL-Library.Word" "HOL-Library.Sublist"
begin

section \<open>error\_base.enh.h: the tristate result\<close>

text \<open>
  \<^verbatim>\<open>enum class tristate : char { GOOD = 1, ERROR = 0, PREV_ERR = -1 };\<close>
  The overloaded \<^verbatim>\<open>operator !\<close> is true for every value but \<^verbatim>\<open>GOOD\<close>.
\<close>

datatype tristate = GOOD | ERROR | PREV_ERR

definition tristate_not :: "tristate \<Rightarrow> bool" where
  "tristate_not e = (e \<noteq> GOOD)"

text \<open>
  A call that may block the calling thread (on \<^verbatim>\<open>std::thread::join\<close>): either it
  cannot proceed in the present state, or it returns a value.
\<close>

datatype 'a call = Blocks | Returns 'a

section \<open>timer.enh.h: the periodic timer\<close>

subsection \<open>Template parameters and the static assertions\<close>

text \<open>
  The second template parameter is a type; the variable templates
  \<^verbatim>\<open>isGoodTimer_v\<close> and \<^verbatim>\<open>isGoodTimerType_v\<close> are specialised for six
  chrono durations and are false for every other type.
\<close>

datatype time_unit =
  Nanoseconds | Microseconds | Milliseconds | Seconds | Minutes | Hours | Other_type

fun isGoodTimer_v :: "time_unit \<Rightarrow> bool" where
  "isGoodTimer_v Milliseconds = True"
| "isGoodTimer_v Seconds = True"
| "isGoodTimer_v Minutes = True"
| "isGoodTimer_v Hours = True"
| "isGoodTimer_v _ = False"

fun isGoodTimerType_v :: "time_unit \<Rightarrow> bool" where
  "isGoodTimerType_v Nanoseconds = True"
| "isGoodTimerType_v Microseconds = True"
| "isGoodTimerType_v u = isGoodTimer_v u"

text \<open>The three \<^verbatim>\<open>static_assert\<close>s of the class, in the order they are met.\<close>

datatype static_assert_failure =
  Unit_must_be_time_type
| Precision_lower_than_5ms
| Unit_must_be_ms_or_coarser

definition timer_class_asserts :: "32 word \<Rightarrow> time_unit \<Rightarrow> static_assert_failure option" where
  "timer_class_asserts per u =
     (if \<not> isGoodTimerType_v u then Some Unit_must_be_time_type
      else if u = Milliseconds \<and> per < 5 then Some Precision_lower_than_5ms
      else None)"

subsection \<open>The object and its threads\<close>

text \<open>
  Program points of \<^verbatim>\<open>timer::loop\<close> (with \<^verbatim>\<open>single_period\<close> inlined), one
  per access to shared state; the mutex-protected block of \<^verbatim>\<open>single_period\<close> is
  one point.
\<close>

datatype loop_pc =
  L_clear_stop
| L_reset_cycles
| L_read_start
| L_set_next
| L_test_stop
| L_sleep_until
| L_tick
| L_notify
| L_returned

text \<open>
  Program points of the client thread inside \<^verbatim>\<open>timer::wait(expected)\<close>, each
  carrying \<^verbatim>\<open>expected\<close>: before the test of \<^verbatim>\<open>isTimerActive\<close>; about to
  take \<^verbatim>\<open>mtxTimer\<close> and evaluate the predicate; blocked inside
  \<^verbatim>\<open>cvTimer.wait\<close> with the mutex released; predicate found true and the
  mutex still held, about to evaluate the return statement; returned, with the
  value returned.
\<close>

datatype wait_pc =
  Wait_idle
| Wait_enter "64 word"
| Wait_pred "64 word"
| Wait_blocked "64 word"
| Wait_sub "64 word"
| Wait_returned "64 word"

text \<open>
  The members of the class. Time points are readings of the high resolution
  clock in nanoseconds, a signed 64-bit count read with \<open>sint\<close>.
  \<open>timerThread\<close> is \<open>None\<close> when the \<^verbatim>\<open>std::thread\<close> is not joinable and
  holds the program point of the thread otherwise. \<open>high_res_now\<close> is the
  present reading of the clock, \<open>waiter\<close> the client thread, and
  \<open>timer_fault\<close> records undefined behaviour or \<^verbatim>\<open>std::terminate\<close>.
\<close>

record timer =
  period :: "32 word"
  unit :: time_unit
  timer_start :: "64 word"
  timer_next :: "64 word"
  stopTimer :: bool
  elapsed_cycles :: "64 word"
  timerThread :: "loop_pc option"
  isTimerActive :: bool
  high_res_now :: "64 word"
  waiter :: wait_pc
  timer_fault :: bool

subsection \<open>Durations\<close>

definition ns_per_unit :: "time_unit \<Rightarrow> int" where
  "ns_per_unit u =
     (case u of
        Nanoseconds \<Rightarrow> 1
      | Microseconds \<Rightarrow> 1000
      | Milliseconds \<Rightarrow> 1000000
      | Seconds \<Rightarrow> 1000000000
      | Minutes \<Rightarrow> 60000000000
      | Hours \<Rightarrow> 3600000000000
      | Other_type \<Rightarrow> 0)"

text \<open>\<^verbatim>\<open>unit(period)\<close> converted to the clock's nanoseconds.\<close>

definition period_ns :: "timer \<Rightarrow> int" where
  "period_ns t = int (unat (period t)) * ns_per_unit (unit t)"

definition int64_ok :: "int \<Rightarrow> bool" where
  "int64_ok i = (- (2 ^ 63) \<le> i \<and> i < 2 ^ 63)"

text \<open>
  Adding a duration to a time point. Signed overflow is undefined in C++;
  it is reported as \<open>None\<close>.
\<close>

definition time_plus :: "64 word \<Rightarrow> int \<Rightarrow> 64 word option" where
  "time_plus tp d =
     (if int64_ok d \<and> int64_ok (sint tp + d) then Some (word_of_int (sint tp + d))
      else None)"

subsection \<open>Member functions\<close>

definition stop :: "timer \<Rightarrow> timer" where
  "stop t = t\<lparr>stopTimer := True\<rparr>"

definition clear_stop :: "timer \<Rightarrow> timer" where
  "clear_stop t = t\<lparr>stopTimer := False\<rparr>"

definition elapsed :: "timer \<Rightarrow> 64 word" where
  "elapsed t = elapsed_cycles t"

text \<open>
  \<^verbatim>\<open>isTimerCounting\<close>: when the timer is active and the thread object is
  joinable, it joins the thread. A joinable thread is any thread that was
  started and not yet joined, running or finished, so the join blocks until
  \<^verbatim>\<open>loop\<close> has returned.
\<close>

definition isTimerCounting :: "timer \<Rightarrow> (bool \<times> timer) call" where
  "isTimerCounting t =
     (if isTimerActive t then
        (case timerThread t of
           Some pc \<Rightarrow>
             (if pc = L_returned
              then Returns (False, t\<lparr>timerThread := None, isTimerActive := False\<rparr>)
              else Blocks)
         | None \<Rightarrow> Returns (True, t))
      else Returns (False, t))"

definition start_timer :: "timer \<Rightarrow> (bool \<times> timer) call" where
  "start_timer t =
     (case isTimerCounting t of
        Blocks \<Rightarrow> Blocks
      | Returns (counting, t1) \<Rightarrow>
          (if counting then Returns (False, t1)
           else if timerThread t1 \<noteq> None then Returns (True, t1\<lparr>timer_fault := True\<rparr>)
           else Returns (True,
                  (clear_stop t1)\<lparr>elapsed_cycles := 0,
                                   timerThread := Some L_clear_stop,
                                   isTimerActive := True\<rparr>)))"

text \<open>
  \<^verbatim>\<open>join\<close>: when \<^verbatim>\<open>isTimerCounting\<close> answers true the thread object is not
  joinable, and joining it throws inside a \<^verbatim>\<open>noexcept\<close> function.
\<close>

definition join :: "timer \<Rightarrow> timer call" where
  "join t =
     (case isTimerCounting t of
        Blocks \<Rightarrow> Blocks
      | Returns (counting, t1) \<Rightarrow>
          (if counting then Returns (t1\<lparr>timer_fault := True\<rparr>) else Returns t1))"

definition force_join :: "timer \<Rightarrow> timer call" where
  "force_join t = join (stop t)"

text \<open>
  The constructor. The class-level assertions fail when the template is
  instantiated, the assertion in the constructor when an object is made; all
  three are compile-time failures, so no object exists in those cases. The
  members are default-initialised (an empty thread handle, zero time points),
  then the body runs and ends with a call of \<^verbatim>\<open>start_timer\<close>. \<open>m\<close> is the
  storage the object is built in.
\<close>

definition timer_members :: "32 word \<Rightarrow> time_unit \<Rightarrow> timer \<Rightarrow> timer" where
  "timer_members per u m =
     m\<lparr>period := per, unit := u, timer_start := 0, timer_next := 0,
       timerThread := None, waiter := Wait_idle, timer_fault := False\<rparr>"

definition timer_body :: "timer \<Rightarrow> (bool \<times> timer) call" where
  "timer_body t =
     start_timer ((clear_stop (t\<lparr>isTimerActive := False\<rparr>))\<lparr>elapsed_cycles := 0\<rparr>)"

definition timer_ctor :: "32 word \<Rightarrow> time_unit \<Rightarrow> timer \<Rightarrow> static_assert_failure + timer call" where
  "timer_ctor per u m =
     (case timer_class_asserts per u of
        Some e \<Rightarrow> Inl e
      | None \<Rightarrow>
          (if \<not> isGoodTimer_v u then Inl Unit_must_be_ms_or_coarser
           else Inr (case timer_body (timer_members per u m) of
                       Blocks \<Rightarrow> Blocks
                     | Returns (r, t) \<Rightarrow> Returns t)))"

subsection \<open>Steps of the threads\<close>

text \<open>The client thread holds \<^verbatim>\<open>mtxTimer\<close> between the predicate and the return.\<close>

definition client_holds_mutex :: "timer \<Rightarrow> bool" where
  "client_holds_mutex t = (case waiter t of Wait_sub k \<Rightarrow> True | _ \<Rightarrow> False)"

definition client_in_wait :: "timer \<Rightarrow> bool" where
  "client_in_wait t =
     (case waiter t of Wait_idle \<Rightarrow> False | Wait_returned r \<Rightarrow> False | _ \<Rightarrow> True)"

text \<open>\<^verbatim>\<open>cvTimer.notify_all()\<close>: a thread blocked in the wait goes back to its predicate.\<close>

definition notify_all_timer :: "timer \<Rightarrow> timer" where
  "notify_all_timer t =
     (case waiter t of Wait_blocked k \<Rightarrow> t\<lparr>waiter := Wait_pred k\<rparr> | _ \<Rightarrow> t)"

text \<open>
  One step of the thread running \<^verbatim>\<open>loop\<close>. \<^verbatim>\<open>sleep_until\<close> returns once the
  clock has reached \<^verbatim>\<open>timer_next\<close>; the block of \<^verbatim>\<open>single_period\<close> needs the
  mutex.
\<close>

definition loop_step :: "timer \<Rightarrow> timer" where
  "loop_step t =
     (case timerThread t of
        None \<Rightarrow> t
      | Some L_clear_stop \<Rightarrow> (clear_stop t)\<lparr>timerThread := Some L_reset_cycles\<rparr>
      | Some L_reset_cycles \<Rightarrow> t\<lparr>elapsed_cycles := 0, timerThread := Some L_read_start\<rparr>
      | Some L_read_start \<Rightarrow> t\<lparr>timer_start := high_res_now t, timerThread := Some L_set_next\<rparr>
      | Some L_set_next \<Rightarrow>
          (case time_plus (timer_start t) (period_ns t) of
             None \<Rightarrow> t\<lparr>timer_fault := True\<rparr>
           | Some n \<Rightarrow> t\<lparr>timer_next := n, timerThread := Some L_test_stop\<rparr>)
      | Some L_test_stop \<Rightarrow>
          (if stopTimer t then t\<lparr>timerThread := Some L_returned\<rparr>
           else t\<lparr>timerThread := Some L_sleep_until\<rparr>)
      | Some L_sleep_until \<Rightarrow>
          (if sint (timer_next t) \<le> sint (high_res_now t)
           then t\<lparr>timerThread := Some L_tick\<rparr> else t)
      | Some L_tick \<Rightarrow>
          (if client_holds_mutex t then t
           else (case time_plus (timer_next t) (period_ns t) of
                   None \<Rightarrow> t\<lparr>timer_fault := True\<rparr>
                 | Some n \<Rightarrow>
                     t\<lparr>elapsed_cycles := elapsed_cycles t + 1, timer_next := n,
                       timerThread := Some L_notify\<rparr>))
      | Some L_notify \<Rightarrow> (notify_all_timer t)\<lparr>timerThread := Some L_test_stop\<rparr>
      | Some L_returned \<Rightarrow> t)"

text \<open>One step of the client thread inside \<^verbatim>\<open>wait(expected)\<close>.\<close>

definition wait_step :: "timer \<Rightarrow> timer" where
  "wait_step t =
     (case waiter t of
        Wait_enter k \<Rightarrow>
          (if \<not> isTimerActive t then
             (case start_timer t of
                Returns (r, t1) \<Rightarrow> t1\<lparr>waiter := Wait_pred k\<rparr>
              | Blocks \<Rightarrow> t)
           else t\<lparr>waiter := Wait_pred k\<rparr>)
      | Wait_pred k \<Rightarrow>
          (if elapsed_cycles t \<ge> k then t\<lparr>waiter := Wait_sub k\<rparr>
           else t\<lparr>waiter := Wait_blocked k\<rparr>)
      | Wait_sub k \<Rightarrow> t\<lparr>waiter := Wait_returned (elapsed_cycles t - k)\<rparr>
      | _ \<Rightarrow> t)"

text \<open>
  What can happen next: a step of the loop thread, a new reading of the clock,
  a step of the client inside \<^verbatim>\<open>wait\<close>, the client, between two waits,
  calling \<^verbatim>\<open>wait(expected)\<close>, any thread calling \<^verbatim>\<open>start_timer()\<close>,
  \<^verbatim>\<open>join()\<close> or \<^verbatim>\<open>stop()\<close> at any moment (none of the three takes
  \<^verbatim>\<open>mtxTimer\<close>), and a spurious wake-up of the condition variable. A blocked
  call leaves the state as it is. After a fault nothing is claimed.
\<close>

datatype timer_action =
  Run_loop
| Clock_reads "64 word"
| Run_wait
| Call_wait "64 word"
| Call_start_timer
| Call_join
| Call_stop
| Spurious_wakeup

definition exec_timer :: "timer_action \<Rightarrow> timer \<Rightarrow> timer" where
  "exec_timer a t =
     (if timer_fault t then t
      else (case a of
              Run_loop \<Rightarrow> loop_step t
            | Clock_reads c \<Rightarrow> t\<lparr>high_res_now := c\<rparr>
            | Run_wait \<Rightarrow> wait_step t
            | Call_wait k \<Rightarrow> (if client_in_wait t then t else t\<lparr>waiter := Wait_enter k\<rparr>)
            | Call_start_timer \<Rightarrow> (case start_timer t of Returns (r, t1) \<Rightarrow> t1 | Blocks \<Rightarrow> t)
            | Call_join \<Rightarrow> (case join t of Returns t1 \<Rightarrow> t1 | Blocks \<Rightarrow> t)
            | Call_stop \<Rightarrow> stop t
            | Spurious_wakeup \<Rightarrow> notify_all_timer t))"

definition run_timer :: "timer_action list \<Rightarrow> timer \<Rightarrow> timer" where
  "run_timer sch t = fold exec_timer sch t"

text \<open>Zeroed storage, used where a concrete object is needed.\<close>

definition zeroed_storage :: timer where
  "zeroed_storage =
     \<lparr>period = 0, unit = Other_type, timer_start = 0, timer_next = 0, stopTimer = False,
      elapsed_cycles = 0, timerThread = None, isTimerActive = False, high_res_now = 0,
      waiter = Wait_idle, timer_fault = False\<rparr>"

subsection \<open>Predicates on timer states\<close>

text \<open>The loop has passed its four initialising statements.\<close>

fun loop_initialised :: "loop_pc \<Rightarrow> bool" where
  "loop_initialised L_clear_stop = False"
| "loop_initialised L_reset_cycles = False"
| "loop_initialised L_read_start = False"
| "loop_initialised L_set_next = False"
| "loop_initialised _ = True"

definition next_wake_equation :: "timer \<Rightarrow> bool" where
  "next_wake_equation t =
     (sint (timer_next t) =
      sint (timer_start t) + period_ns t * (int (unat (elapsed_cycles t)) + 1))"

text \<open>
  What every reachable state satisfies: the active flag tells whether the
  thread handle is joinable; before the loop is initialised the cycle count is
  zero, afterwards the wake-up equation holds.
\<close>

definition timer_inv :: "timer \<Rightarrow> bool" where
  "timer_inv t =
     ((isTimerActive t = (timerThread t \<noteq> None)) \<and>
      (case timerThread t of
         None \<Rightarrow> True
       | Some pc \<Rightarrow> if loop_initialised pc then next_wake_equation t else elapsed_cycles t = 0))"

text \<open>
  What holds of the client as long as no thread calls \<^verbatim>\<open>start_timer\<close> or
  \<^verbatim>\<open>join\<close> during its wait: past the entry of \<^verbatim>\<open>wait\<close> the timer is
  active, and where the predicate was found true the cycle count has reached
  the expected value.
\<close>

definition client_inv :: "timer \<Rightarrow> bool" where
  "client_inv t =
     (case waiter t of
        Wait_pred k \<Rightarrow> isTimerActive t
      | Wait_blocked k \<Rightarrow> isTimerActive t
      | Wait_sub k \<Rightarrow> isTimerActive t \<and> k \<le> elapsed_cycles t
      | _ \<Rightarrow> True)"

text \<open>The argument of the call of \<^verbatim>\<open>wait\<close> the client is inside, if any.\<close>

definition wait_expected :: "timer \<Rightarrow> 64 word option" where
  "wait_expected t =
     (case waiter t of
        Wait_enter k \<Rightarrow> Some k
      | Wait_pred k \<Rightarrow> Some k
      | Wait_blocked k \<Rightarrow> Some k
      | Wait_sub k \<Rightarrow> Some k
      | _ \<Rightarrow> None)"

text \<open>The stop flag is clear and a thread is inside \<^verbatim>\<open>loop\<close>.\<close>

definition never_stopped :: "timer \<Rightarrow> bool" where
  "never_stopped t =
     (\<not> stopTimer t \<and> isTimerActive t \<and>
      (case timerThread t of None \<Rightarrow> False | Some pc \<Rightarrow> pc \<noteq> L_returned))"

text \<open>The object \<^verbatim>\<open>enh::millis<50>\<close> as its constructor leaves it.\<close>

definition millis50 :: timer where
  "millis50 =
     \<lparr>period = 50, unit = Milliseconds, timer_start = 0, timer_next = 0, stopTimer = False,
      elapsed_cycles = 0, timerThread = Some L_clear_stop, isTimerActive = True,
      high_res_now = 0, waiter = Wait_idle, timer_fault = False\<rparr>"

text \<open>
  Two moments of one client: about to return from \<^verbatim>\<open>wait(1)\<close> after two
  ticks, and entering \<^verbatim>\<open>wait(0)\<close> on a timer that was stopped and joined.
\<close>

definition before_return :: timer where
  "before_return =
     run_timer [Call_wait 1, Run_wait, Run_wait, Run_loop, Run_loop, Run_loop, Run_loop,
                Run_loop, Clock_reads 50000000, Run_loop, Run_loop, Run_loop, Run_loop,
                Clock_reads 100000000, Run_loop, Run_loop, Run_wait] millis50"

definition entering_inactive :: timer where
  "entering_inactive =
     run_timer [Run_loop, Run_loop, Run_loop, Run_loop, Call_stop, Run_loop, Call_join,
                Call_wait 0] millis50"

text \<open>
  The client calls \<^verbatim>\<open>wait(1)\<close> and blocks; the first tick wakes it; another
  thread calls \<^verbatim>\<open>stop()\<close> and the loop returns; the client finds its
  predicate true and holds the mutex; the other thread calls \<^verbatim>\<open>join()\<close> and
  \<^verbatim>\<open>start_timer()\<close>. The client is then about to evaluate its return
  statement.
\<close>

definition raced_wait :: timer where
  "raced_wait =
     run_timer [Call_wait 1, Run_wait, Run_wait, Run_loop, Run_loop, Run_loop, Run_loop,
                Run_loop, Clock_reads 50000000, Run_loop, Run_loop, Run_loop, Call_stop,
                Run_loop, Run_wait, Call_join, Call_start_timer] millis50"

section \<open>queued\_process.enh.h: the queue with its processing thread\<close>

subsection \<open>The object and its threads\<close>

text \<open>
  Program points of \<^verbatim>\<open>queue_exec_process\<close>, one per access to shared state; a
  block that holds \<^verbatim>\<open>mtxQueue\<close> is one point. \<open>Q_exit_updated\<close> and
  \<open>Q_exit_stop\<close> are the two atomic loads of the exit test after a wake-up and
  carry the local \<^verbatim>\<open>empty\<close>; \<open>Q_process\<close> carries the local \<^verbatim>\<open>front\<close>.
\<close>

datatype 'a exec_pc =
  Q_test_proc
| Q_test_stop
| Q_test_updated
| Q_wait
| Q_blocked
| Q_woken
| Q_exit_updated bool
| Q_exit_stop bool
| Q_clear_updated
| Q_stop_now
| Q_pop
| Q_process 'a
| Q_recheck
| Q_returned tristate

text \<open>
  The statements the public member functions are made of, as the owning
  thread executes them.
\<close>

datatype prim =
  P_start
| P_guard_running
| P_poll_empty
| P_set_stop
| P_notify
| P_wait_stop

datatype api =
  Api_start_queue_process
| Api_stopQueue
| Api_WaitForQueueStop
| Api_WaitForQueueEmpty
| Api_safe_join
| Api_force_join

text \<open>
  The members of the class. \<open>msgProc\<close> is \<open>None\<close> for an empty
  \<^verbatim>\<open>std::function\<close>; \<open>queue_thread\<close> is \<open>None\<close> when the thread handle is not
  joinable and holds the program point of the thread otherwise. \<open>delivered\<close>
  lists the arguments \<^verbatim>\<open>msgProc\<close> has been called with, in order; \<open>owner\<close> is
  what is left of the call the owning thread is inside; \<open>queue_fault\<close> records
  undefined behaviour or \<^verbatim>\<open>std::terminate\<close>.
\<close>

record 'a queued_process =
  QueuedMessage :: "'a list"
  isUpdated :: bool
  QueueStop :: bool
  isQueueActive :: bool
  msgProc :: "('a \<Rightarrow> tristate) option"
  queue_thread :: "'a exec_pc option"
  delivered :: "'a list"
  owner :: "prim list"
  queue_fault :: bool

subsection \<open>Member functions\<close>

text \<open>Both constructors; the default one leaves \<^verbatim>\<open>msgProc\<close> empty.\<close>

definition queued_process_ctor :: "('a \<Rightarrow> tristate) option \<Rightarrow> 'a queued_process" where
  "queued_process_ctor msg =
     \<lparr>QueuedMessage = [], isUpdated = False, QueueStop = False, isQueueActive = False,
      msgProc = msg, queue_thread = None, delivered = [], owner = [], queue_fault = False\<rparr>"

definition RegisterProc :: "('a \<Rightarrow> tristate) option \<Rightarrow> 'a queued_process \<Rightarrow> 'a queued_process" where
  "RegisterProc f q = q\<lparr>msgProc := f\<rparr>"

definition isQueueRunning :: "'a queued_process \<Rightarrow> bool" where
  "isQueueRunning q = isQueueActive q"

definition isQueueUpdated :: "'a queued_process \<Rightarrow> bool" where
  "isQueueUpdated q = isUpdated q"

text \<open>
  \<^verbatim>\<open>start_queue_process\<close>. Assigning a new thread to a handle that is still
  joinable calls \<^verbatim>\<open>std::terminate\<close>.
\<close>

definition start_queue_process :: "'a queued_process \<Rightarrow> tristate \<times> 'a queued_process" where
  "start_queue_process q =
     (if msgProc q = None then (ERROR, q)
      else if isQueueRunning q then (ERROR, q)
      else if queue_thread q \<noteq> None then (GOOD, q\<lparr>queue_fault := True\<rparr>)
      else (GOOD, q\<lparr>QueueStop := False, queue_thread := Some Q_test_proc,
                    isQueueActive := True\<rparr>))"

text \<open>The locked block of \<^verbatim>\<open>postMessage\<close>; the notification follows it.\<close>

definition postMessage_push :: "'a \<Rightarrow> 'a queued_process \<Rightarrow> 'a queued_process" where
  "postMessage_push x q = q\<lparr>QueuedMessage := QueuedMessage q @ [x], isUpdated := True\<rparr>"

text \<open>\<^verbatim>\<open>cvQueue.notify_all()\<close>: only a thread blocked in the wait is woken.\<close>

definition notify_all_queue :: "'a queued_process \<Rightarrow> 'a queued_process" where
  "notify_all_queue q =
     (case queue_thread q of Some Q_blocked \<Rightarrow> q\<lparr>queue_thread := Some Q_woken\<rparr> | _ \<Rightarrow> q)"

text \<open>
  \<^verbatim>\<open>WaitForQueueStop\<close>. The join blocks until \<^verbatim>\<open>queue_exec_process\<close> has
  returned; joining a handle that is not joinable throws inside a
  \<^verbatim>\<open>noexcept\<close> function. The last statement is written
  \<^verbatim>\<open>QueuedMessage = std::queue<instruct>;\<close> and is taken as the assignment of an
  empty queue, as the comment of the function says (``Then empties queue'').
\<close>

definition WaitForQueueStop :: "'a queued_process \<Rightarrow> 'a queued_process call" where
  "WaitForQueueStop q =
     (if queue_thread q \<noteq> None \<or> isQueueRunning q then
        (case queue_thread q of
           None \<Rightarrow> Returns (q\<lparr>queue_fault := True\<rparr>)
         | Some (Q_returned r) \<Rightarrow>
             Returns (q\<lparr>queue_thread := None, isQueueActive := False, QueueStop := False,
                        QueuedMessage := []\<rparr>)
         | Some _ \<Rightarrow> Blocks)
      else Returns q)"

text \<open>The public member functions as sequences of statements.\<close>

fun program :: "api \<Rightarrow> prim list" where
  "program Api_start_queue_process = [P_start]"
| "program Api_stopQueue = [P_set_stop, P_notify]"
| "program Api_WaitForQueueStop = [P_wait_stop]"
| "program Api_WaitForQueueEmpty = [P_poll_empty]"
| "program Api_safe_join = [P_guard_running, P_poll_empty, P_set_stop, P_notify, P_wait_stop]"
| "program Api_force_join = [P_guard_running, P_set_stop, P_notify, P_wait_stop]"

subsection \<open>Steps of the threads\<close>

text \<open>
  One step of the thread running \<^verbatim>\<open>queue_exec_process\<close>. \<^verbatim>\<open>front()\<close> on an
  empty queue is undefined, and so is calling an empty \<^verbatim>\<open>std::function\<close>
  inside a \<^verbatim>\<open>noexcept\<close> function.
\<close>

definition queue_exec_process :: "'a queued_process \<Rightarrow> 'a queued_process" where
  "queue_exec_process q =
     (case queue_thread q of
        None \<Rightarrow> q
      | Some Q_test_proc \<Rightarrow>
          (if msgProc q = None then q\<lparr>queue_thread := Some (Q_returned ERROR)\<rparr>
           else q\<lparr>queue_thread := Some Q_test_stop\<rparr>)
      | Some Q_test_stop \<Rightarrow>
          (if QueueStop q then q\<lparr>queue_thread := Some (Q_returned GOOD)\<rparr>
           else q\<lparr>queue_thread := Some Q_test_updated\<rparr>)
      | Some Q_test_updated \<Rightarrow>
          (if isUpdated q then q\<lparr>queue_thread := Some Q_clear_updated\<rparr>
           else q\<lparr>queue_thread := Some Q_wait\<rparr>)
      | Some Q_wait \<Rightarrow> q\<lparr>queue_thread := Some Q_blocked\<rparr>
      | Some Q_blocked \<Rightarrow> q
      | Some Q_woken \<Rightarrow> q\<lparr>queue_thread := Some (Q_exit_updated (QueuedMessage q = []))\<rparr>
      | Some (Q_exit_updated was_empty) \<Rightarrow>
          (if isUpdated q then q\<lparr>queue_thread := Some Q_test_updated\<rparr>
           else q\<lparr>queue_thread := Some (Q_exit_stop was_empty)\<rparr>)
      | Some (Q_exit_stop was_empty) \<Rightarrow>
          (if QueueStop q \<and> was_empty then q\<lparr>queue_thread := Some (Q_returned GOOD)\<rparr>
           else q\<lparr>queue_thread := Some Q_test_updated\<rparr>)
      | Some Q_clear_updated \<Rightarrow> q\<lparr>isUpdated := False, queue_thread := Some Q_stop_now\<rparr>
      | Some Q_stop_now \<Rightarrow>
          (if QueuedMessage q = [] \<or> QueueStop q then q\<lparr>queue_thread := Some Q_test_stop\<rparr>
           else q\<lparr>queue_thread := Some Q_pop\<rparr>)
      | Some Q_pop \<Rightarrow>
          (case QueuedMessage q of
             [] \<Rightarrow> q\<lparr>queue_fault := True\<rparr>
           | front # rest \<Rightarrow> q\<lparr>QueuedMessage := rest, queue_thread := Some (Q_process front)\<rparr>)
      | Some (Q_process front) \<Rightarrow>
          (case msgProc q of
             None \<Rightarrow> q\<lparr>queue_fault := True\<rparr>
           | Some f \<Rightarrow>
               (if tristate_not (f front)
                then q\<lparr>delivered := delivered q @ [front],
                       queue_thread := Some (Q_returned ERROR)\<rparr>
                else q\<lparr>delivered := delivered q @ [front], queue_thread := Some Q_recheck\<rparr>))
      | Some Q_recheck \<Rightarrow>
          (if QueuedMessage q = [] then q\<lparr>queue_thread := Some Q_test_stop\<rparr>
           else q\<lparr>queue_thread := Some Q_pop\<rparr>)
      | Some (Q_returned r) \<Rightarrow> q)"

text \<open>
  One step of the owning thread: the first statement of what is left of its
  call. A \<^verbatim>\<open>return\<close> drops the rest; a wait that cannot proceed leaves the
  state as it is. One round of \<^verbatim>\<open>WaitForQueueEmpty\<close> is the sleep and the
  locked test.
\<close>

definition owner_step :: "'a queued_process \<Rightarrow> 'a queued_process" where
  "owner_step q =
     (case owner q of
        [] \<Rightarrow> q
      | P_start # rest \<Rightarrow> (snd (start_queue_process q))\<lparr>owner := rest\<rparr>
      | P_guard_running # rest \<Rightarrow>
          (if \<not> isQueueRunning q then q\<lparr>owner := []\<rparr> else q\<lparr>owner := rest\<rparr>)
      | P_poll_empty # rest \<Rightarrow> (if QueuedMessage q = [] then q\<lparr>owner := rest\<rparr> else q)
      | P_set_stop # rest \<Rightarrow> q\<lparr>QueueStop := True, owner := rest\<rparr>
      | P_notify # rest \<Rightarrow> (notify_all_queue q)\<lparr>owner := rest\<rparr>
      | P_wait_stop # rest \<Rightarrow>
          (case WaitForQueueStop q of Blocks \<Rightarrow> q | Returns q1 \<Rightarrow> q1\<lparr>owner := rest\<rparr>))"

text \<open>
  What can happen next: a step of the processing thread; the locked block of a
  \<^verbatim>\<open>postMessage\<close> of any thread; a notification of the condition variable (the
  second half of a \<^verbatim>\<open>postMessage\<close>, or a spurious wake-up); a step of the owning
  thread; the owning thread, between calls, calling a member function (one
  controlling thread, the class having no synchronisation for these calls).
  After a fault nothing is claimed.
\<close>

datatype 'a queue_action =
  Worker
| Post 'a
| Notify
| Owner
| Call api

definition exec_queue :: "'a queue_action \<Rightarrow> 'a queued_process \<Rightarrow> 'a queued_process" where
  "exec_queue a q =
     (if queue_fault q then q
      else (case a of
              Worker \<Rightarrow> queue_exec_process q
            | Post x \<Rightarrow> postMessage_push x q
            | Notify \<Rightarrow> notify_all_queue q
            | Owner \<Rightarrow> owner_step q
            | Call c \<Rightarrow> (if owner q = [] then q\<lparr>owner := program c\<rparr> else q)))"

definition run_queue :: "'a queue_action list \<Rightarrow> 'a queued_process \<Rightarrow> 'a queued_process" where
  "run_queue sch q = fold exec_queue sch q"

subsection \<open>Auxiliary notions for the queue\<close>

text \<open>The item the thread has popped and not yet handed to \<^verbatim>\<open>msgProc\<close>.\<close>

definition in_flight :: "'a queued_process \<Rightarrow> 'a list" where
  "in_flight q = (case queue_thread q of Some (Q_process x) \<Rightarrow> [x] | _ \<Rightarrow> [])"

text \<open>The items posted by a schedule, in order.\<close>

definition posts_of :: "'a queue_action list \<Rightarrow> 'a list" where
  "posts_of sch = concat (map (\<lambda>a. case a of Post x \<Rightarrow> [x] | _ \<Rightarrow> []) sch)"

text \<open>
  \<^verbatim>\<open>postMessage\<close> called for each item of a list in turn, then
  \<^verbatim>\<open>start_queue_process\<close>, on a freshly constructed queue.
\<close>

definition post_all :: "'a list \<Rightarrow> 'a queue_action list" where
  "post_all xs = concat (map (\<lambda>x. [Post x, Notify]) xs)"

definition posted_then_started :: "('a \<Rightarrow> tristate) \<Rightarrow> 'a list \<Rightarrow> 'a queued_process" where
  "posted_then_started f xs =
     run_queue (post_all xs @ [Call Api_start_queue_process, Owner])
       (queued_process_ctor (Some f))"

text \<open>
  Everything posted that is still accounted for: the items handed to
  \<^verbatim>\<open>msgProc\<close>, the one in flight, and the backlog.
\<close>

definition pending :: "'a queued_process \<Rightarrow> 'a list" where
  "pending q = delivered q @ in_flight q @ QueuedMessage q"

text \<open>
  States of a run in which items \<open>xs\<close> were posted before the start, nothing
  is posted afterwards and nobody asks for a stop: the thread is alive, and it
  is at or near the condition variable only once the backlog is empty.
\<close>

definition fifo_inv :: "('a \<Rightarrow> tristate) \<Rightarrow> 'a list \<Rightarrow> 'a queued_process \<Rightarrow> bool" where
  "fifo_inv f xs q =
     (\<not> queue_fault q \<and> msgProc q = Some f \<and> \<not> QueueStop q \<and> owner q = [] \<and>
      pending q = xs \<and>
      (case queue_thread q of
         None \<Rightarrow> False
       | Some Q_test_proc \<Rightarrow> QueuedMessage q = [] \<or> isUpdated q
       | Some Q_test_stop \<Rightarrow> QueuedMessage q = [] \<or> isUpdated q
       | Some Q_test_updated \<Rightarrow> QueuedMessage q = [] \<or> isUpdated q
       | Some Q_clear_updated \<Rightarrow> True
       | Some Q_stop_now \<Rightarrow> True
       | Some Q_pop \<Rightarrow> QueuedMessage q \<noteq> []
       | Some (Q_process x) \<Rightarrow> True
       | Some Q_recheck \<Rightarrow> True
       | Some (Q_returned r) \<Rightarrow> False
       | Some _ \<Rightarrow> QueuedMessage q = []))"

text \<open>A bound on the steps the thread still needs to hand over every item.\<close>

definition fifo_rem :: "'a queued_process \<Rightarrow> nat" where
  "fifo_rem q =
     (if QueuedMessage q = [] \<and> in_flight q = [] then 0
      else 3 * length (QueuedMessage q) +
           (case queue_thread q of
              Some Q_test_proc \<Rightarrow> 5
            | Some Q_test_stop \<Rightarrow> 4
            | Some Q_test_updated \<Rightarrow> 3
            | Some Q_clear_updated \<Rightarrow> 2
            | Some Q_stop_now \<Rightarrow> 1
            | Some (Q_process x) \<Rightarrow> 2
            | Some Q_recheck \<Rightarrow> 1
            | _ \<Rightarrow> 0))"

text \<open>
  States inside a call of \<^verbatim>\<open>safe_join\<close> that passed its first test, relative
  to the items \<open>P0\<close> accounted for when the call began: until the backlog has
  been seen empty they are still accounted for, afterwards they have all left
  the backlog.
\<close>

definition sj_inv :: "'a list \<Rightarrow> 'a queued_process \<Rightarrow> bool" where
  "sj_inv P0 q =
     (owner q = [] \<or>
      (queue_thread q \<noteq> None \<and>
       ((owner q = program Api_safe_join \<and> isQueueActive q \<and> prefix P0 (pending q)) \<or>
        (owner q = [P_poll_empty, P_set_stop, P_notify, P_wait_stop] \<and>
           prefix P0 (pending q)) \<or>
        ((owner q = [P_set_stop, P_notify, P_wait_stop] \<or> owner q = [P_notify, P_wait_stop] \<or>
          owner q = [P_wait_stop]) \<and>
           prefix P0 (delivered q @ in_flight q)))))"

text \<open>
  States after \<^verbatim>\<open>queue_exec_process\<close> has returned \<^verbatim>\<open>ERROR\<close> with \<open>ds\<close>
  delivered, the owning thread being between calls.
\<close>

definition failed_with :: "'a list \<Rightarrow> 'a queued_process \<Rightarrow> bool" where
  "failed_with ds q =
     (queue_thread q = Some (Q_returned ERROR) \<and> delivered q = ds \<and> isQueueActive q \<and>
      msgProc q \<noteq> None \<and> owner q = [] \<and> \<not> queue_fault q)"

text \<open>
  What every state reachable from a constructor satisfies: no fault has
  occurred, the flag \<^verbatim>\<open>isQueueActive\<close> tells whether the thread handle is
  joinable, a thread exists only with a processing function, and the thread is
  about to pop only from a backlog that is not empty.
\<close>

definition queue_wf :: "'a queued_process \<Rightarrow> bool" where
  "queue_wf q =
     (\<not> queue_fault q \<and> (isQueueActive q = (queue_thread q \<noteq> None)) \<and>
      (queue_thread q \<noteq> None \<longrightarrow> msgProc q \<noteq> None) \<and>
      (queue_thread q = Some Q_pop \<longrightarrow> QueuedMessage q \<noteq> []))"

text \<open>Two processing functions on numbers.\<close>

definition always_good :: "nat \<Rightarrow> tristate" where
  "always_good x = GOOD"

definition fatal_on_2 :: "nat \<Rightarrow> tristate" where
  "fatal_on_2 x = (if x = 2 then ERROR else GOOD)"

text \<open>
  Concrete runs. One item is posted, the queue is started, the thread pops the
  item, and \<^verbatim>\<open>safe_join\<close> is called while the item is in flight.
\<close>

definition drain_start :: "nat queued_process" where
  "drain_start =
     run_queue [Post 1, Notify, Call Api_start_queue_process, Owner, Worker, Worker, Worker,
                Worker, Worker, Worker, Call Api_safe_join]
       (queued_process_ctor (Some always_good))"

definition drain_schedule :: "nat queue_action list" where
  "drain_schedule = [Owner, Owner, Owner, Owner, Worker, Worker, Worker]"

text \<open>Items 1, 2, 3 with a function that fails on 2, up to the call on item 2.\<close>

definition before_fatal :: "nat queued_process" where
  "before_fatal =
     run_queue [Worker, Worker, Worker, Worker, Worker, Worker, Worker, Worker, Worker]
       (posted_then_started fatal_on_2 [1, 2, 3])"

text \<open>
  The same queue after the failure: joined with \<^verbatim>\<open>WaitForQueueStop\<close>, started
  again, and given a fourth item.
\<close>

definition restarted :: "nat queued_process" where
  "restarted =
     run_queue [Worker, Call Api_WaitForQueueStop, Owner, Call Api_start_queue_process, Owner,
                Post 4, Notify, Worker, Worker, Worker, Worker, Worker, Worker, Worker]
       before_fatal"

text \<open>
  One item posted, the queue started, and \<^verbatim>\<open>stopQueue\<close> called before the
  thread has made its first test.
\<close>

definition stopped_early :: "nat queued_process" where
  "stopped_early =
     run_queue [Post 1, Notify, Call Api_start_queue_process, Owner, Call Api_stopQueue, Owner,
                Owner, Worker, Worker]
       (queued_process_ctor (Some always_good))"

text \<open>
  The thread is blocked on the condition variable with nothing to do; item 1
  is posted and \<^verbatim>\<open>stopQueue\<close> is called before the thread, woken by the
  post, has looked at the backlog.
\<close>

definition stopped_after_post :: "nat queued_process" where
  "stopped_after_post =
     run_queue [Call Api_start_queue_process, Owner, Worker, Worker, Worker, Worker, Post 1,
                Notify, Call Api_stopQueue, Owner, Owner, Worker, Worker, Worker, Worker,
                Worker, Worker]
       (queued_process_ctor (Some always_good))"

text \<open>
  Item 1 is posted, the queue is started and at once joined with
  \<^verbatim>\<open>force_join\<close>, which discards the item; then the queue is started again and
  \<^verbatim>\<open>safe_join\<close> is called and runs to its last statement.
\<close>

definition discarded_then_joined :: "nat queued_process" where
  "discarded_then_joined =
     run_queue [Post 1, Notify, Call Api_start_queue_process, Owner, Call Api_force_join,
                Owner, Owner, Owner, Worker, Worker, Owner,
                Call Api_start_queue_process, Owner, Call Api_safe_join, Owner, Owner, Owner,
                Owner, Worker, Worker]
       (queued_process_ctor (Some always_good))"

text \<open>One item posted and \<^verbatim>\<open>safe_join\<close> called on a queue that was never started.\<close>

definition never_started :: "nat queued_process" where
  "never_started =
     run_queue [Post 1, Notify, Call Api_safe_join] (queued_process_ctor (Some always_good))"

section \<open>Properties of the timer\<close>

lemma timer_body_returns:
  "timerThread t = None \<Longrightarrow>
   timer_body t =
     Returns (True, t\<lparr>isTimerActive := True, stopTimer := False, elapsed_cycles := 0,
                      timerThread := Some L_clear_stop\<rparr>)"
  by (simp add: timer_body_def start_timer_def isTimerCounting_def clear_stop_def)

lemma millis50_ctor: "timer_ctor 50 Milliseconds zeroed_storage = Inr (Returns millis50)"
  by (simp add: timer_ctor_def timer_class_asserts_def timer_body_def start_timer_def
      isTimerCounting_def clear_stop_def timer_members_def zeroed_storage_def millis50_def)

text \<open>
  C9. A timer in milliseconds with a period below 5 is refused by a static
  assertion, so no object is ever constructed; with seconds, minutes or hours
  every period, zero included, is accepted.
\<close>

theorem precision_floor:
  "(per < 5 \<longrightarrow> timer_ctor per Milliseconds m = Inl Precision_lower_than_5ms) \<and>
   (u \<in> {Seconds, Minutes, Hours} \<longrightarrow> (\<exists>t. timer_ctor per u m = Inr (Returns t)))"
proof (intro conjI impI)
  assume "per < 5"
  then show "timer_ctor per Milliseconds m = Inl Precision_lower_than_5ms"
    by (simp add: timer_ctor_def timer_class_asserts_def)
next
  assume "u \<in> {Seconds, Minutes, Hours}"
  then have ok: "timer_class_asserts per u = None" and good: "isGoodTimer_v u"
    by (auto simp: timer_class_asserts_def)
  have "timerThread (timer_members per u m) = None"
    by (simp add: timer_members_def)
  from timer_body_returns [OF this] ok good
  show "\<exists>t. timer_ctor per u m = Inr (Returns t)"
    by (simp add: timer_ctor_def)
qed

theorem precision_floor_witness:
  "(4 :: 32 word) < 5 \<and>
   timer_ctor 4 Milliseconds zeroed_storage = Inl Precision_lower_than_5ms \<and>
   Seconds \<in> {Seconds, Minutes, Hours} \<and>
   (\<exists>t. timer_ctor 0 Seconds zeroed_storage = Inr (Returns t))"
  using precision_floor [of 4 zeroed_storage Seconds]
    precision_floor [of 0 zeroed_storage Seconds]
  by simp

text \<open>
  C10. Whenever the static assertions let a timer be constructed, the
  constructor returns (its call of \<^verbatim>\<open>start_timer\<close> neither blocks nor answers
  false) and leaves the object with the stop flag cleared, the cycle count at
  zero, a thread spawned on \<^verbatim>\<open>loop\<close> and the active flag set: the worker runs
  before any call of \<^verbatim>\<open>start_timer\<close> or \<^verbatim>\<open>wait\<close> by the program.
\<close>

theorem constructor_starts_worker:
  "timer_ctor per u m = Inr c \<Longrightarrow>
   (\<exists>t. c = Returns t \<and>
        \<not> stopTimer t \<and> elapsed_cycles t = 0 \<and> timerThread t = Some L_clear_stop \<and>
        isTimerActive t \<and> \<not> timer_fault t \<and>
        timer_body (timer_members per u m) = Returns (True, t))"
  by (auto simp: timer_ctor_def timer_body_returns timer_members_def
      split: option.splits if_splits)

theorem constructor_starts_worker_witness:
  "timer_ctor 50 Milliseconds zeroed_storage = Inr (Returns millis50) \<and>
   \<not> stopTimer millis50 \<and> elapsed_cycles millis50 = 0 \<and>
   timerThread millis50 = Some L_clear_stop \<and> isTimerActive millis50 \<and>
   \<not> timer_fault millis50 \<and>
   timer_body (timer_members 50 Milliseconds zeroed_storage) = Returns (True, millis50)"
  using constructor_starts_worker [OF millis50_ctor] millis50_ctor by simp

subsection \<open>The wake-up equation and the cycle count\<close>

lemma sint_word_of_int_64:
  "int64_ok i \<Longrightarrow> sint (word_of_int i :: 64 word) = i"
  by (simp add: int64_ok_def sint_sbintrunc' signed_take_bit_int_eq_self)

lemma sint_time_plus:
  assumes "time_plus tp d = Some n"
  shows "sint n = sint tp + d"
proof -
  from assms have ok: "int64_ok (sint tp + d)" and n: "n = word_of_int (sint tp + d)"
    unfolding time_plus_def by (simp_all only: split: if_splits) auto
  show ?thesis unfolding n by (rule sint_word_of_int_64 [OF ok])
qed

lemma unat_succ_64:
  fixes e :: "64 word"
  assumes "int (unat e) + 1 < 2 ^ 64"
  shows "int (unat (e + 1)) = int (unat e) + 1"
proof -
  have "unat e + 1 < 2 ^ 64" using assms by (simp flip: of_nat_less_iff [where 'a = int])
  then have "unat e + unat (1 :: 64 word) < 2 ^ LENGTH(64)" by simp
  then have "unat (e + 1) = unat e + unat (1 :: 64 word)"
    by (simp only: unat_add_lem)
  then show ?thesis by simp
qed

lemma tick_equation:
  fixes e nx st n :: "64 word"
  assumes eq: "sint nx = sint st + p * (int (unat e) + 1)"
    and tp: "time_plus nx p = Some n"
    and p0: "0 \<le> p"
  shows "sint n = sint st + p * (int (unat (e + 1)) + 1)"
proof (cases "p = 0")
  case True
  with sint_time_plus [OF tp] eq show ?thesis by simp
next
  case False
  with p0 have p1: "1 \<le> p" by simp
  have n: "sint n = sint nx + p" using sint_time_plus [OF tp] by simp
  have "sint n < 2 ^ 63" using sint_lt [of n] by simp
  moreover have "- (2 ^ 63) \<le> sint st" using sint_ge [of st] by simp
  ultimately have "sint n - sint st < 2 ^ 64" by simp
  with n eq have lt: "p * (int (unat e) + 2) < 2 ^ 64" by (simp add: algebra_simps)
  have "1 * (int (unat e) + 2) \<le> p * (int (unat e) + 2)"
    by (rule mult_right_mono [OF p1]) simp
  then have "int (unat e) + 2 \<le> p * (int (unat e) + 2)" by simp
  from le_less_trans [OF this lt] have "int (unat e) + 1 < 2 ^ 64" by simp
  from unat_succ_64 [OF this] n eq show ?thesis by (simp add: algebra_simps)
qed


lemma period_ns_nonneg: "0 \<le> period_ns t"
  by (simp add: period_ns_def ns_per_unit_def split: time_unit.splits)

lemma timer_inv_loop_step:
  assumes "timer_inv t"
  shows "timer_inv (loop_step t)"
proof (cases "timerThread t")
  case None
  with assms show ?thesis by (simp add: loop_step_def)
next
  case (Some pc)
  show ?thesis
  proof (cases pc)
    case L_tick
    show ?thesis
    proof (cases "time_plus (timer_next t) (period_ns t)")
      case None
      with assms Some L_tick show ?thesis
        by (auto simp: loop_step_def timer_inv_def next_wake_equation_def period_ns_def)
    next
      case (Some n)
      have "next_wake_equation t" using assms \<open>timerThread t = Some pc\<close> L_tick
        by (simp add: timer_inv_def)
      then have "sint n = sint (timer_start t) + period_ns t * (int (unat (elapsed_cycles t + 1)) + 1)"
        unfolding next_wake_equation_def
        by (rule tick_equation [OF _ Some period_ns_nonneg])
      with assms Some L_tick \<open>timerThread t = Some pc\<close> show ?thesis
        by (auto simp: loop_step_def timer_inv_def next_wake_equation_def period_ns_def)
    qed
  next
    case L_set_next
    with assms Some show ?thesis
      by (auto simp: loop_step_def timer_inv_def next_wake_equation_def period_ns_def
            dest!: sint_time_plus split: option.splits)
  qed (use assms Some in \<open>auto simp: loop_step_def timer_inv_def next_wake_equation_def
         period_ns_def clear_stop_def notify_all_timer_def split: wait_pc.splits\<close>)
qed

lemma timer_inv_start_timer:
  "timer_inv t \<Longrightarrow> start_timer t = Returns (r, t1) \<Longrightarrow> timer_inv t1"
  by (auto simp: start_timer_def isTimerCounting_def timer_inv_def clear_stop_def
      next_wake_equation_def period_ns_def
      split: option.splits if_splits)

lemma timer_inv_join:
  "timer_inv t \<Longrightarrow> join t = Returns t1 \<Longrightarrow> timer_inv t1"
  by (auto simp: join_def isTimerCounting_def timer_inv_def
      next_wake_equation_def period_ns_def
      split: option.splits if_splits)

lemma timer_inv_waiter_update: "timer_inv (t\<lparr>waiter := w\<rparr>) = timer_inv t"
  by (simp add: timer_inv_def next_wake_equation_def period_ns_def split: option.splits)

lemma timer_inv_wait_step:
  assumes "timer_inv t"
  shows "timer_inv (wait_step t)"
proof (cases "waiter t")
  case (Wait_enter k)
  with assms show ?thesis
    by (cases "start_timer t")
       (auto simp: wait_step_def timer_inv_waiter_update dest: timer_inv_start_timer)
qed (use assms in \<open>auto simp: wait_step_def timer_inv_waiter_update\<close>)

lemma timer_inv_exec:
  assumes "timer_inv t"
  shows "timer_inv (exec_timer a t)"
proof (cases "timer_fault t")
  case True
  with assms show ?thesis by (simp add: exec_timer_def)
next
  case False
  show ?thesis
  proof (cases a)
    case Run_loop
    with False timer_inv_loop_step [OF assms] show ?thesis by (simp add: exec_timer_def)
  next
    case (Clock_reads c)
    with False assms show ?thesis
      by (auto simp: exec_timer_def timer_inv_def next_wake_equation_def period_ns_def
          split: option.splits)
  next
    case Run_wait
    with False timer_inv_wait_step [OF assms] show ?thesis by (simp add: exec_timer_def)
  next
    case (Call_wait k)
    with False assms show ?thesis
      by (simp add: exec_timer_def timer_inv_waiter_update)
  next
    case Call_start_timer
    with False assms show ?thesis
      by (auto simp: exec_timer_def split: call.splits dest: timer_inv_start_timer)
  next
    case Call_join
    with False assms show ?thesis
      by (auto simp: exec_timer_def split: call.splits dest: timer_inv_join)
  next
    case Call_stop
    with False assms show ?thesis
      by (auto simp: exec_timer_def stop_def timer_inv_def next_wake_equation_def period_ns_def
          split: option.splits)
  next
    case Spurious_wakeup
    with False assms show ?thesis
      by (auto simp: exec_timer_def notify_all_timer_def timer_inv_waiter_update
          split: wait_pc.splits)
  qed
qed

lemma timer_inv_run: "timer_inv t \<Longrightarrow> timer_inv (run_timer sch t)"
  unfolding run_timer_def
  by (induction sch arbitrary: t) (simp_all add: timer_inv_exec)

lemma timer_inv_ctor: "timer_ctor per u m = Inr (Returns t0) \<Longrightarrow> timer_inv t0"
  by (auto simp: timer_ctor_def timer_body_returns timer_members_def timer_inv_def
      split: option.splits if_splits)









text \<open>
  A tick adds one to the cycle count and one period to \<^verbatim>\<open>timer_next\<close>.
\<close>

lemma tick_advances:
  assumes "timerThread t = Some L_tick" and "\<not> client_holds_mutex t"
    and "time_plus (timer_next t) (period_ns t) = Some n"
  shows "elapsed_cycles (loop_step t) = elapsed_cycles t + 1 \<and>
         sint (timer_next (loop_step t)) = sint (timer_next t) + period_ns t \<and>
         timerThread (loop_step t) = Some L_notify"
  using assms sint_time_plus [OF assms(3)] by (simp add: loop_step_def)


subsection \<open>Waiting without interference\<close>

lemma client_inv_loop_step:
  assumes "timer_inv t" and "client_inv t"
  shows "client_inv (loop_step t)"
proof (cases "timerThread t")
  case None
  with assms show ?thesis by (simp add: loop_step_def)
next
  case (Some pc)
  with assms show ?thesis
    by (cases pc)
       (auto simp: loop_step_def timer_inv_def client_inv_def clear_stop_def
          notify_all_timer_def client_holds_mutex_def
          split: wait_pc.splits option.splits)
qed

lemma client_inv_wait_step:
  assumes "timer_inv t" and "client_inv t"
  shows "client_inv (wait_step t)"
proof (cases "waiter t")
  case (Wait_enter k)
  with assms show ?thesis
    by (auto simp: wait_step_def client_inv_def timer_inv_def start_timer_def
        isTimerCounting_def clear_stop_def split: option.splits)
qed (use assms in \<open>auto simp: wait_step_def client_inv_def\<close>)

lemma client_inv_exec:
  assumes "timer_inv t" and "client_inv t"
    and "a \<noteq> Call_start_timer" and "a \<noteq> Call_join"
  shows "client_inv (exec_timer a t)"
proof (cases "timer_fault t")
  case True
  with assms show ?thesis by (simp add: exec_timer_def)
next
  case False
  show ?thesis
  proof (cases a)
    case Run_loop
    with False client_inv_loop_step [OF assms(1,2)] show ?thesis by (simp add: exec_timer_def)
  next
    case Run_wait
    with False client_inv_wait_step [OF assms(1,2)] show ?thesis by (simp add: exec_timer_def)
  qed (use False assms in \<open>auto simp: exec_timer_def client_inv_def client_in_wait_def
         stop_def notify_all_timer_def split: wait_pc.splits\<close>)
qed

lemma client_inv_run:
  "timer_inv t \<Longrightarrow> client_inv t \<Longrightarrow> Call_start_timer \<notin> set sch \<Longrightarrow>
   Call_join \<notin> set sch \<Longrightarrow> client_inv (run_timer sch t)"
proof (induction sch arbitrary: t)
  case Nil
  then show ?case by (simp add: run_timer_def)
next
  case (Cons a sch)
  from Cons.prems have a: "a \<noteq> Call_start_timer" "a \<noteq> Call_join"
    and sch: "Call_start_timer \<notin> set sch" "Call_join \<notin> set sch" by auto
  have "client_inv (run_timer sch (exec_timer a t))"
    by (rule Cons.IH [OF timer_inv_exec [OF Cons.prems(1)]
          client_inv_exec [OF Cons.prems(1,2) a] sch])
  then show ?case by (simp add: run_timer_def)
qed

lemma waiter_loop_step:
  "waiter (loop_step t) = Wait_returned r \<Longrightarrow> waiter t = Wait_returned r"
  by (auto simp: loop_step_def clear_stop_def notify_all_timer_def
      split: option.splits loop_pc.splits wait_pc.splits if_splits)

lemma waiter_start_timer:
  "start_timer t = Returns (r, t1) \<Longrightarrow> waiter t1 = waiter t"
  by (auto simp: start_timer_def isTimerCounting_def clear_stop_def
      split: option.splits if_splits)

lemma waiter_join:
  "join t = Returns t1 \<Longrightarrow> waiter t1 = waiter t"
  by (auto simp: join_def isTimerCounting_def split: option.splits if_splits)

lemma waiter_wait_step:
  assumes "wait_expected t = Some k" and "waiter (wait_step t) = Wait_returned r"
  shows "waiter t = Wait_sub k \<and> wait_step t = t\<lparr>waiter := Wait_returned (elapsed_cycles t - k)\<rparr>"
  using assms
  by (cases "start_timer t")
     (auto simp: wait_expected_def wait_step_def split: wait_pc.splits if_splits)

lemma returned_from_sub:
  assumes "wait_expected t = Some k" and "waiter (exec_timer a t) = Wait_returned r"
  shows "waiter t = Wait_sub k \<and> exec_timer a t = t\<lparr>waiter := Wait_returned (elapsed_cycles t - k)\<rparr>"
proof -
  from assms(1) have nr: "waiter t \<noteq> Wait_returned r"
    by (auto simp: wait_expected_def)
  show ?thesis
  proof (cases a)
    case Run_wait
    with assms nr show ?thesis
      by (auto simp: exec_timer_def dest: waiter_wait_step split: if_splits)
  next
    case Run_loop
    with assms nr show ?thesis
      by (auto simp: exec_timer_def dest: waiter_loop_step split: if_splits)
  next
    case Call_start_timer
    with assms nr show ?thesis
      by (auto simp: exec_timer_def dest: waiter_start_timer split: if_splits call.splits)
  next
    case Call_join
    with assms nr show ?thesis
      by (auto simp: exec_timer_def dest: waiter_join split: if_splits call.splits)
  qed (use assms nr in \<open>auto simp: exec_timer_def stop_def notify_all_timer_def
         client_in_wait_def wait_expected_def split: if_splits wait_pc.splits\<close>)
qed

text \<open>
  In every execution from the constructor, a call of \<^verbatim>\<open>wait(k)\<close> that finds
  the timer inactive starts it before anything else.
\<close>

lemma wait_starts_inactive_timer:
  assumes ctor: "timer_ctor per u m = Inr (Returns t0)"
    and t: "t = run_timer sch t0"
    and enter: "waiter t = Wait_enter k" "\<not> isTimerActive t"
  shows "timerThread (wait_step t) = Some L_clear_stop \<and> isTimerActive (wait_step t) \<and>
         elapsed_cycles (wait_step t) = 0 \<and> waiter (wait_step t) = Wait_pred k"
proof -
  have inv: "timer_inv t" unfolding t by (rule timer_inv_run [OF timer_inv_ctor [OF ctor]])
  with enter show ?thesis
    by (auto simp: timer_inv_def wait_step_def start_timer_def isTimerCounting_def clear_stop_def)
qed

text \<open>
  When the client is between two waits at some moment of an execution and no
  thread calls \<^verbatim>\<open>start_timer\<close> or \<^verbatim>\<open>join\<close> from then on, a call of
  \<^verbatim>\<open>wait(k)\<close> returns only with the cycle count at least \<open>k\<close>, and the value
  returned is the cycle count minus \<open>k\<close>, without wrap-around.
\<close>

lemma wait_overshoot_undisturbed:
  assumes ctor: "timer_ctor per u m = Inr (Returns t0)"
    and t1: "t1 = run_timer sch0 t0" and idle: "\<not> client_in_wait t1"
    and quiet: "Call_start_timer \<notin> set sch" "Call_join \<notin> set sch"
    and t: "t = run_timer sch t1"
    and inside: "wait_expected t = Some k"
    and ret: "waiter (exec_timer a t) = Wait_returned r"
  shows "k \<le> elapsed_cycles (exec_timer a t) \<and>
         r = elapsed_cycles (exec_timer a t) - k \<and>
         int (unat r) = int (unat (elapsed_cycles (exec_timer a t))) - int (unat k) \<and>
         isTimerActive (exec_timer a t) \<and> timerThread (exec_timer a t) \<noteq> None"
proof -
  have inv1: "timer_inv t1" unfolding t1 by (rule timer_inv_run [OF timer_inv_ctor [OF ctor]])
  from idle have c1: "client_inv t1"
    by (auto simp: client_inv_def client_in_wait_def split: wait_pc.splits)
  have inv: "timer_inv t" unfolding t by (rule timer_inv_run [OF inv1])
  have cinv: "client_inv t" unfolding t by (rule client_inv_run [OF inv1 c1 quiet])
  from returned_from_sub [OF inside ret] have sub: "waiter t = Wait_sub k"
    and ex: "exec_timer a t = t\<lparr>waiter := Wait_returned (elapsed_cycles t - k)\<rparr>" by simp_all
  from cinv sub have le: "k \<le> elapsed_cycles t" and act: "isTimerActive t"
    by (auto simp: client_inv_def)
  from inv act have thr: "timerThread t \<noteq> None" by (simp add: timer_inv_def)
  from ret ex have r: "r = elapsed_cycles t - k" by simp
  from le have "unat (elapsed_cycles t - k) = unat (elapsed_cycles t) - unat k"
    by (simp add: unat_sub)
  moreover from le have "unat k \<le> unat (elapsed_cycles t)" by (simp add: word_le_nat_alt)
  ultimately show ?thesis using le act thr r ex by simp
qed

subsection \<open>Starting twice\<close>

lemma never_stopped_loop_step: "never_stopped t \<Longrightarrow> never_stopped (loop_step t)"
  by (auto simp: never_stopped_def loop_step_def clear_stop_def notify_all_timer_def
      split: option.splits loop_pc.splits wait_pc.splits)

lemma never_stopped_blocks:
  "never_stopped t \<Longrightarrow> start_timer t = Blocks \<and> join t = Blocks"
  by (auto simp: never_stopped_def start_timer_def join_def isTimerCounting_def
      split: option.splits)

lemma never_stopped_wait_step: "never_stopped t \<Longrightarrow> never_stopped (wait_step t)"
  by (auto simp: never_stopped_def wait_step_def split: wait_pc.splits option.splits)

lemma never_stopped_simple:
  "never_stopped t \<Longrightarrow> never_stopped (t\<lparr>high_res_now := c\<rparr>) \<and>
     never_stopped (t\<lparr>waiter := w\<rparr>) \<and> never_stopped (notify_all_timer t)"
  by (auto simp: never_stopped_def notify_all_timer_def split: wait_pc.splits option.splits)

lemma never_stopped_exec:
  "never_stopped t \<Longrightarrow> a \<noteq> Call_stop \<Longrightarrow> never_stopped (exec_timer a t)"
  by (cases a)
     (auto simp: exec_timer_def never_stopped_loop_step never_stopped_wait_step
        never_stopped_blocks never_stopped_simple)

lemma never_stopped_run:
  "never_stopped t \<Longrightarrow> Call_stop \<notin> set sch \<Longrightarrow> never_stopped (run_timer sch t)"
  unfolding run_timer_def
  by (induction sch arbitrary: t) (auto simp: never_stopped_exec)

text \<open>
  C8, the timer. After the constructor the timer runs; as long as nobody calls
  \<^verbatim>\<open>stop\<close>, a call of \<^verbatim>\<open>start_timer\<close> never returns false: it blocks in the
  join of \<^verbatim>\<open>isTimerCounting\<close>, waiting for a loop that does not end.
\<close>

theorem second_start_timer_blocks:
  assumes "timer_ctor per u m = Inr (Returns t0)" and "Call_stop \<notin> set sch"
  shows "start_timer (run_timer sch t0) = Blocks"
proof -
  from assms(1) have "never_stopped t0"
    by (auto simp: timer_ctor_def timer_body_returns timer_members_def never_stopped_def
      split: option.splits if_splits)
  from never_stopped_run [OF this assms(2)] show ?thesis
    by (auto simp: never_stopped_def start_timer_def isTimerCounting_def split: option.splits)
qed


lemmas timer_eval =
  run_timer_def exec_timer_def loop_step_def wait_step_def start_timer_def join_def
  isTimerCounting_def clear_stop_def stop_def notify_all_timer_def client_in_wait_def
  client_holds_mutex_def time_plus_def int64_ok_def period_ns_def ns_per_unit_def millis50_def



lemma before_return_eq:
  "before_return =
   millis50\<lparr>timer_next := 150000000, elapsed_cycles := 2, timerThread := Some L_notify,
            high_res_now := 100000000, waiter := Wait_sub 1\<rparr>"
  by (simp add: before_return_def timer_eval)

lemma entering_inactive_eq:
  "entering_inactive =
   millis50\<lparr>timer_next := 50000000, stopTimer := True, timerThread := None,
            isTimerActive := False, waiter := Wait_enter 0\<rparr>"
  by (simp add: entering_inactive_def timer_eval)

lemma wait_undisturbed_example:
  "waiter entering_inactive = Wait_enter 0 \<and> \<not> isTimerActive entering_inactive \<and>
   timerThread (wait_step entering_inactive) = Some L_clear_stop \<and>
   isTimerActive (wait_step entering_inactive) \<and>
   wait_expected before_return = Some 1 \<and>
   waiter (exec_timer Run_wait before_return) = Wait_returned 1 \<and>
   1 \<le> elapsed_cycles (exec_timer Run_wait before_return) \<and>
   (1 :: 64 word) = elapsed_cycles (exec_timer Run_wait before_return) - 1 \<and>
   isTimerActive (exec_timer Run_wait before_return)"
proof -
  have a: "waiter entering_inactive = Wait_enter 0" "\<not> isTimerActive entering_inactive"
    by (simp_all add: entering_inactive_eq millis50_def)
  have b: "wait_expected before_return = Some 1"
    "waiter (exec_timer Run_wait before_return) = Wait_returned 1"
    by (simp_all add: before_return_eq wait_expected_def exec_timer_def wait_step_def
        millis50_def)
  have i: "millis50 = run_timer [] millis50" "\<not> client_in_wait millis50"
    by (simp_all add: run_timer_def client_in_wait_def millis50_def)
  have q: "Call_start_timer \<notin> set [Call_wait 1, Run_wait, Run_wait, Run_loop, Run_loop,
      Run_loop, Run_loop, Run_loop, Clock_reads 50000000, Run_loop, Run_loop, Run_loop,
      Run_loop, Clock_reads 100000000, Run_loop, Run_loop, Run_wait]"
    "Call_join \<notin> set [Call_wait 1, Run_wait, Run_wait, Run_loop, Run_loop,
      Run_loop, Run_loop, Run_loop, Clock_reads 50000000, Run_loop, Run_loop, Run_loop,
      Run_loop, Clock_reads 100000000, Run_loop, Run_loop, Run_wait]"
    by simp_all
  from wait_starts_inactive_timer [OF millis50_ctor entering_inactive_def a] a
    wait_overshoot_undisturbed [OF millis50_ctor i q before_return_def b] b
  show ?thesis by simp
qed

lemma raced_wait_eq:
  "raced_wait =
   millis50\<lparr>timer_next := 100000000, high_res_now := 50000000, waiter := Wait_sub 1\<rparr>"
  by (simp add: raced_wait_def timer_eval)

text \<open>
  C6. A client is inside \<^verbatim>\<open>wait(1)\<close> on a timer built by the constructor and
  has found its predicate true after the first tick; meanwhile another thread
  has called \<^verbatim>\<open>stop()\<close>, \<^verbatim>\<open>join()\<close> and \<^verbatim>\<open>start_timer()\<close>, and
  \<^verbatim>\<open>start_timer\<close> has set \<^verbatim>\<open>elapsed_cycles\<close> to zero without taking the
  mutex the client holds. The call returns with the cycle count at 0, below
  the expected 1, and the value returned is 0 - 1 wrapped around, the largest
  64-bit number.
\<close>

theorem wait_returns_below_expected:
  "timer_ctor 50 Milliseconds zeroed_storage = Inr (Returns millis50) \<and>
   waiter raced_wait = Wait_sub 1 \<and> client_holds_mutex raced_wait \<and>
   \<not> timer_fault raced_wait \<and> elapsed_cycles raced_wait = 0 \<and>
   waiter (exec_timer Run_wait raced_wait) = Wait_returned (- 1) \<and>
   unat (- 1 :: 64 word) = 18446744073709551615 \<and>
   elapsed_cycles (exec_timer Run_wait raced_wait) = 0 \<and>
   \<not> (1 \<le> elapsed_cycles (exec_timer Run_wait raced_wait))"
  using millis50_ctor
  by (simp add: raced_wait_eq exec_timer_def wait_step_def client_holds_mutex_def millis50_def
      unsigned_minus_1_eq_mask mask_eq_exp_minus_1)

theorem second_start_timer_blocks_witness:
  "timer_ctor 50 Milliseconds zeroed_storage = Inr (Returns millis50) \<and>
   Call_stop \<notin> set [Run_loop, Run_loop, Call_start_timer, Run_loop] \<and>
   start_timer (run_timer [Run_loop, Run_loop, Call_start_timer, Run_loop] millis50) = Blocks"
  using second_start_timer_blocks [OF millis50_ctor,
      of "[Run_loop, Run_loop, Call_start_timer, Run_loop]"] millis50_ctor
  by simp

section \<open>Properties of the queue\<close>

subsection \<open>Reachable states\<close>

lemma run_queue_snoc: "run_queue (sch @ [a]) q = exec_queue a (run_queue sch q)"
  by (simp add: run_queue_def)

lemma queue_wf_worker:
  assumes "queue_wf q"
  shows "queue_wf (queue_exec_process q)"
proof (cases "queue_thread q")
  case None
  with assms show ?thesis by (simp add: queue_exec_process_def)
next
  case (Some pc)
  with assms show ?thesis
    by (cases pc)
       (auto simp: queue_wf_def queue_exec_process_def split: list.splits if_splits)
qed

lemma queue_wf_post: "queue_wf q \<Longrightarrow> queue_wf (postMessage_push x q)"
  by (auto simp: queue_wf_def postMessage_push_def split: option.splits exec_pc.splits)

lemma queue_wf_notify:
  assumes "queue_wf q"
  shows "queue_wf (notify_all_queue q)"
proof (cases "queue_thread q")
  case None
  with assms show ?thesis by (simp add: notify_all_queue_def)
next
  case (Some pc)
  with assms show ?thesis
    by (cases pc) (auto simp: queue_wf_def notify_all_queue_def)
qed

lemma queue_wf_owner_update:
  "queue_wf (q\<lparr>owner := ps\<rparr>) = queue_wf q"
  by (simp add: queue_wf_def)

lemma queue_wf_start: "queue_wf q \<Longrightarrow> queue_wf (snd (start_queue_process q))"
  by (auto simp: queue_wf_def start_queue_process_def isQueueRunning_def)

lemma queue_wf_wait_stop:
  "queue_wf q \<Longrightarrow> WaitForQueueStop q = Returns q1 \<Longrightarrow> queue_wf q1"
  by (auto simp: queue_wf_def WaitForQueueStop_def isQueueRunning_def
      split: option.splits exec_pc.splits if_splits)

lemma queue_wf_set_stop: "queue_wf q \<Longrightarrow> queue_wf (q\<lparr>QueueStop := True\<rparr>)"
  by (simp add: queue_wf_def)

lemma queue_wf_owner:
  assumes "queue_wf q"
  shows "queue_wf (owner_step q)"
proof (cases "owner q")
  case Nil
  with assms show ?thesis by (simp add: owner_step_def)
next
  case (Cons p rest)
  with assms show ?thesis
    by (cases p)
       (auto simp: owner_step_def queue_wf_owner_update queue_wf_start queue_wf_notify
          queue_wf_set_stop
          dest: queue_wf_wait_stop split: call.splits)
qed

lemma queue_wf_exec: "queue_wf q \<Longrightarrow> queue_wf (exec_queue a q)"
  by (cases a)
     (auto simp: exec_queue_def queue_wf_worker queue_wf_post queue_wf_notify queue_wf_owner
        queue_wf_owner_update)

lemma queue_wf_run: "queue_wf (run_queue sch (queued_process_ctor msg))"
proof (induction sch rule: rev_induct)
  case Nil
  show ?case by (simp add: run_queue_def queue_wf_def queued_process_ctor_def)
next
  case (snoc a sch)
  then show ?case by (simp add: run_queue_snoc queue_wf_exec)
qed

text \<open>
  No execution from a constructor reaches undefined behaviour or
  \<^verbatim>\<open>std::terminate\<close>.
\<close>

lemma no_queue_fault: "\<not> queue_fault (run_queue sch (queued_process_ctor msg))"
  using queue_wf_run [of sch msg] by (simp add: queue_wf_def)

subsection \<open>Items are handed over at most once\<close>

lemma pending_worker: "pending (queue_exec_process q) = pending q"
proof (cases "queue_thread q")
  case None
  then show ?thesis by (simp add: queue_exec_process_def)
next
  case (Some pc)
  then show ?thesis
    by (cases pc)
       (simp_all add: pending_def in_flight_def queue_exec_process_def
          split: option.splits list.splits)
qed

lemma pending_post: "pending (postMessage_push x q) = pending q @ [x]"
  by (simp add: pending_def in_flight_def postMessage_push_def)

lemma pending_notify: "pending (notify_all_queue q) = pending q"
  by (simp add: pending_def in_flight_def notify_all_queue_def
      split: option.splits exec_pc.splits)

lemma pending_start: "pending (snd (start_queue_process q)) = pending q"
  by (auto simp: pending_def in_flight_def start_queue_process_def)

lemma pending_wait_stop:
  "WaitForQueueStop q = Returns q1 \<Longrightarrow> prefix (pending q1) (pending q)"
  by (auto simp: pending_def in_flight_def WaitForQueueStop_def
      split: option.splits exec_pc.splits if_splits)

lemma pending_owner_update [simp]: "pending (q\<lparr>owner := ps\<rparr>) = pending q"
  by (simp add: pending_def in_flight_def)

lemma pending_owner: "prefix (pending (owner_step q)) (pending q)"
proof (cases "owner q")
  case Nil
  then show ?thesis by (simp add: owner_step_def)
next
  case (Cons p rest)
  then show ?thesis
    by (cases p)
       (auto simp: owner_step_def pending_start pending_notify
          dest: pending_wait_stop split: call.splits,
        auto simp: pending_def in_flight_def)
qed

lemma posts_of_single [simp]:
  "posts_of [Post x] = [x]" "posts_of [Worker] = []" "posts_of [Notify] = []"
  "posts_of [Owner] = []" "posts_of [Call c] = []"
  by (simp_all add: posts_of_def)

lemma pending_exec:
  "subseq (pending (exec_queue a q)) (pending q @ posts_of [a])"
proof (cases "queue_fault q")
  case True
  have "subseq (pending q) (pending q @ posts_of [a])"
    by (rule list_emb_prefix) simp
  with True show ?thesis by (simp add: exec_queue_def)
next
  case False
  show ?thesis
  proof (cases a)
    case Worker
    with False show ?thesis by (simp add: exec_queue_def pending_worker)
  next
    case (Post x)
    with False show ?thesis by (simp add: exec_queue_def pending_post)
  next
    case Notify
    with False show ?thesis by (simp add: exec_queue_def pending_notify)
  next
    case Owner
    have "subseq (pending (owner_step q)) (pending q)"
      by (rule prefix_imp_subseq [OF pending_owner])
    with False Owner show ?thesis by (simp add: exec_queue_def)
  next
    case (Call c)
    with False show ?thesis by (simp add: exec_queue_def)
  qed
qed

lemma posts_of_snoc: "posts_of (sch @ [a]) = posts_of sch @ posts_of [a]"
  by (simp add: posts_of_def)

lemma pending_run:
  "subseq (pending (run_queue sch (queued_process_ctor msg))) (posts_of sch)"
proof (induction sch rule: rev_induct)
  case Nil
  show ?case by (simp add: run_queue_def pending_def in_flight_def queued_process_ctor_def posts_of_def)
next
  case (snoc a sch)
  have "subseq (pending (run_queue sch (queued_process_ctor msg)) @ posts_of [a])
          (posts_of sch @ posts_of [a])"
    using snoc.IH by (simp add: list_emb_append_mono)
  with pending_exec [of a "run_queue sch (queued_process_ctor msg)"]
  show ?case unfolding run_queue_snoc posts_of_snoc
    by (rule subseq_order.trans)
qed

text \<open>
  C4. In every execution from the constructor, whatever the interleaving of
  posts, notifications, steps of the processing thread and calls of the owning
  thread: the items handed to \<^verbatim>\<open>msgProc\<close>, followed by the item popped and
  about to be handed over, followed by the backlog, form a subsequence of the
  items posted. So each posted item is handed over at most once, and an item
  is out of the backlog before \<^verbatim>\<open>msgProc\<close> is called on it.
\<close>

theorem at_most_once:
  "subseq (delivered (run_queue sch (queued_process_ctor msg)) @
           in_flight (run_queue sch (queued_process_ctor msg)) @
           QueuedMessage (run_queue sch (queued_process_ctor msg)))
          (posts_of sch)"
  using pending_run [of sch msg] by (simp add: pending_def)

subsection \<open>Items posted before the start\<close>

lemma run_queue_Cons: "run_queue (a # sch) q = run_queue sch (exec_queue a q)"
  by (simp add: run_queue_def)

lemma run_queue_append: "run_queue (sch @ sch') q = run_queue sch' (run_queue sch q)"
  by (simp add: run_queue_def)

lemma fifo_worker:
  assumes inv: "fifo_inv f xs q" and good: "\<forall>x. f x = GOOD"
  shows "fifo_inv f xs (queue_exec_process q) \<and>
         fifo_rem (queue_exec_process q) \<le> fifo_rem q - 1"
proof (cases "queue_thread q")
  case None
  with inv show ?thesis by (simp add: fifo_inv_def)
next
  case (Some pc)
  with inv good show ?thesis
    by (cases pc)
       (auto simp: fifo_inv_def fifo_rem_def pending_def in_flight_def queue_exec_process_def
          tristate_not_def split: list.splits)
qed

lemma fifo_notify:
  assumes inv: "fifo_inv f xs q"
  shows "fifo_inv f xs (notify_all_queue q) \<and> fifo_rem (notify_all_queue q) = fifo_rem q"
proof (cases "queue_thread q")
  case None
  with inv show ?thesis by (simp add: fifo_inv_def)
next
  case (Some pc)
  with inv show ?thesis
    by (cases pc)
       (auto simp: fifo_inv_def fifo_rem_def pending_def in_flight_def notify_all_queue_def)
qed

lemma fifo_run:
  assumes good: "\<forall>x. f x = GOOD"
  shows "fifo_inv f xs q \<Longrightarrow> set sch \<subseteq> {Worker, Notify} \<Longrightarrow>
         fifo_inv f xs (run_queue sch q) \<and>
         fifo_rem (run_queue sch q) \<le> fifo_rem q - count_list sch Worker"
proof (induction sch arbitrary: q)
  case Nil
  then show ?case by (simp add: run_queue_def)
next
  case (Cons a sch)
  from Cons.prems(1) have nf: "\<not> queue_fault q" by (simp add: fifo_inv_def)
  from Cons.prems(2) have a: "a = Worker \<or> a = Notify" and sch: "set sch \<subseteq> {Worker, Notify}"
    by auto
  from a show ?case
  proof
    assume w: "a = Worker"
    from fifo_worker [OF Cons.prems(1) good]
    have i: "fifo_inv f xs (exec_queue a q)" and r: "fifo_rem (exec_queue a q) \<le> fifo_rem q - 1"
      using nf w by (simp_all add: exec_queue_def)
    from Cons.IH [OF i sch] r w show ?thesis by (auto simp: run_queue_Cons)
  next
    assume n: "a = Notify"
    from fifo_notify [OF Cons.prems(1)]
    have i: "fifo_inv f xs (exec_queue a q)" and r: "fifo_rem (exec_queue a q) = fifo_rem q"
      using nf n by (simp_all add: exec_queue_def)
    from Cons.IH [OF i sch] r n show ?thesis by (simp add: run_queue_Cons)
  qed
qed

lemma run_post_all:
  "\<not> queue_fault q \<Longrightarrow> queue_thread q = None \<Longrightarrow>
   run_queue (post_all xs) q =
   q\<lparr>QueuedMessage := QueuedMessage q @ xs, isUpdated := isUpdated q \<or> xs \<noteq> []\<rparr>"
proof (induction xs arbitrary: q)
  case Nil
  then show ?case by (simp add: post_all_def run_queue_def)
next
  case (Cons x xs)
  have step: "run_queue [Post x, Notify] q = q\<lparr>QueuedMessage := QueuedMessage q @ [x], isUpdated := True\<rparr>"
    using Cons.prems
    by (simp add: run_queue_def exec_queue_def postMessage_push_def notify_all_queue_def)
  have "post_all (x # xs) = [Post x, Notify] @ post_all xs" by (simp add: post_all_def)
  then have "run_queue (post_all (x # xs)) q = run_queue (post_all xs) (run_queue [Post x, Notify] q)"
    by (simp only: run_queue_append)
  also have "\<dots> = q\<lparr>QueuedMessage := QueuedMessage q @ x # xs, isUpdated := True\<rparr>"
    unfolding step using Cons.prems by (subst Cons.IH) simp_all
  finally show ?case by simp
qed

lemma posted_then_started_eq:
  "posted_then_started f xs =
   (queued_process_ctor (Some f))\<lparr>QueuedMessage := xs, isUpdated := xs \<noteq> [],
      queue_thread := Some Q_test_proc, isQueueActive := True\<rparr>"
proof -
  have "run_queue (post_all xs) (queued_process_ctor (Some f)) =
        (queued_process_ctor (Some f))\<lparr>QueuedMessage := xs, isUpdated := xs \<noteq> []\<rparr>"
    by (subst run_post_all) (simp_all add: queued_process_ctor_def)
  then show ?thesis
    by (simp add: posted_then_started_def run_queue_append run_queue_def exec_queue_def
        owner_step_def start_queue_process_def isQueueRunning_def queued_process_ctor_def)
qed

lemma fifo_rem_0:
  assumes "fifo_rem q = 0"
  shows "QueuedMessage q = [] \<and> in_flight q = []"
proof (cases "queue_thread q")
  case None
  with assms show ?thesis by (auto simp: fifo_rem_def in_flight_def split: if_splits)
next
  case (Some pc)
  with assms show ?thesis
    by (cases pc) (auto simp: fifo_rem_def in_flight_def split: if_splits)
qed

text \<open>
  C3. Items \<open>xs\<close> are posted on a new queue, then the queue is started, and
  \<^verbatim>\<open>msgProc\<close> answers \<^verbatim>\<open>GOOD\<close> on every item. Whatever the interleaving of
  steps of the processing thread and notifications afterwards, the items
  handed to \<^verbatim>\<open>msgProc\<close> are a prefix of \<open>xs\<close>, and after
  \<open>3 * length xs + 5\<close> steps of the thread they are exactly \<open>xs\<close>.
\<close>

theorem fifo_order:
  assumes "\<forall>x. f x = GOOD" and "set sch \<subseteq> {Worker, Notify}"
  shows "prefix (delivered (run_queue sch (posted_then_started f xs))) xs \<and>
         (3 * length xs + 5 \<le> count_list sch Worker \<longrightarrow>
            delivered (run_queue sch (posted_then_started f xs)) = xs)"
proof -
  have inv0: "fifo_inv f xs (posted_then_started f xs)"
    by (simp add: posted_then_started_eq fifo_inv_def pending_def in_flight_def
        queued_process_ctor_def)
  have rem0: "fifo_rem (posted_then_started f xs) \<le> 3 * length xs + 5"
    by (simp add: posted_then_started_eq fifo_rem_def)
  from fifo_run [OF assms(1) inv0 assms(2)]
  have inv: "fifo_inv f xs (run_queue sch (posted_then_started f xs))"
    and rem: "fifo_rem (run_queue sch (posted_then_started f xs)) \<le>
              fifo_rem (posted_then_started f xs) - count_list sch Worker"
    by simp_all
  from inv have pend: "pending (run_queue sch (posted_then_started f xs)) = xs"
    by (simp add: fifo_inv_def)
  then have "xs = delivered (run_queue sch (posted_then_started f xs)) @
      (in_flight (run_queue sch (posted_then_started f xs)) @
       QueuedMessage (run_queue sch (posted_then_started f xs)))"
    by (simp add: pending_def)
  then have p: "prefix (delivered (run_queue sch (posted_then_started f xs))) xs"
    by (rule prefixI)
  have "delivered (run_queue sch (posted_then_started f xs)) = xs"
    if "3 * length xs + 5 \<le> count_list sch Worker"
  proof -
    from that rem rem0 have "fifo_rem (run_queue sch (posted_then_started f xs)) = 0" by simp
    then have "QueuedMessage (run_queue sch (posted_then_started f xs)) = [] \<and>
               in_flight (run_queue sch (posted_then_started f xs)) = []"
      by (rule fifo_rem_0)
    with pend show ?thesis by (simp add: pending_def)
  qed
  with p show ?thesis by blast
qed


subsection \<open>Joining after the backlog has been seen empty\<close>

lemma grow_worker:
  "prefix (delivered q @ in_flight q)
          (delivered (queue_exec_process q) @ in_flight (queue_exec_process q))"
proof (cases "queue_thread q")
  case None
  then show ?thesis by (simp add: queue_exec_process_def)
next
  case (Some pc)
  then show ?thesis
    by (cases pc)
       (simp_all add: in_flight_def queue_exec_process_def split: option.splits list.splits)
qed

lemma thread_worker:
  "(queue_thread (queue_exec_process q) = None) = (queue_thread q = None)"
proof (cases "queue_thread q")
  case None
  then show ?thesis by (simp add: queue_exec_process_def)
next
  case (Some pc)
  then show ?thesis
    by (cases pc) (simp_all add: queue_exec_process_def split: option.splits list.splits)
qed

lemma frame_worker:
  "owner (queue_exec_process q) = owner q \<and>
   isQueueActive (queue_exec_process q) = isQueueActive q"
  by (simp add: queue_exec_process_def split: option.splits exec_pc.splits list.splits)

lemma sj_inv_worker:
  assumes "sj_inv P0 q"
  shows "sj_inv P0 (queue_exec_process q)"
proof -
  have g: "prefix P0 (delivered (queue_exec_process q) @ in_flight (queue_exec_process q))"
    if "prefix P0 (delivered q @ in_flight q)"
    using that grow_worker [of q] by (rule prefix_order.trans)
  from assms show ?thesis
    unfolding sj_inv_def
    by (auto simp: frame_worker pending_worker thread_worker g simp del: not_None_eq)
qed

lemma sj_inv_post:
  assumes "sj_inv P0 q"
  shows "sj_inv P0 (postMessage_push x q)"
proof -
  have g: "prefix P0 (pending (postMessage_push x q))" if "prefix P0 (pending q)"
    using that by (simp add: pending_post prefix_prefix)
  have f: "owner (postMessage_push x q) = owner q"
    "isQueueActive (postMessage_push x q) = isQueueActive q"
    "queue_thread (postMessage_push x q) = queue_thread q"
    "delivered (postMessage_push x q) = delivered q"
    "in_flight (postMessage_push x q) = in_flight q"
    by (simp_all add: postMessage_push_def in_flight_def)
  from assms show ?thesis
    unfolding sj_inv_def by (auto simp: f g)
qed

lemma frame_notify:
  "owner (notify_all_queue q) = owner q"
  "isQueueActive (notify_all_queue q) = isQueueActive q"
  "(queue_thread (notify_all_queue q) = None) = (queue_thread q = None)"
  "delivered (notify_all_queue q) = delivered q"
  "in_flight (notify_all_queue q) = in_flight q"
  "QueuedMessage (notify_all_queue q) = QueuedMessage q"
  by (simp_all add: notify_all_queue_def in_flight_def split: option.splits exec_pc.splits)

lemma sj_inv_notify:
  assumes "sj_inv P0 q"
  shows "sj_inv P0 (notify_all_queue q)"
  using assms unfolding sj_inv_def by (auto simp: frame_notify pending_notify)

lemma sj_inv_owner:
  assumes "sj_inv P0 q"
  shows "sj_inv P0 (owner_step q)"
proof (cases "owner q")
  case Nil
  then show ?thesis by (simp add: owner_step_def sj_inv_def)
next
  case (Cons p rest)
  with assms have cases:
    "(owner q = program Api_safe_join \<and> isQueueActive q \<and> prefix P0 (pending q)) \<or>
     (owner q = [P_poll_empty, P_set_stop, P_notify, P_wait_stop] \<and> prefix P0 (pending q)) \<or>
     (owner q = [P_set_stop, P_notify, P_wait_stop] \<and> prefix P0 (delivered q @ in_flight q)) \<or>
     (owner q = [P_notify, P_wait_stop] \<and> prefix P0 (delivered q @ in_flight q)) \<or>
     (owner q = [P_wait_stop] \<and> prefix P0 (delivered q @ in_flight q))"
    and thr: "queue_thread q \<noteq> None"
    by (auto simp: sj_inv_def)
  from cases show ?thesis
  proof (elim disjE conjE)
    assume "owner q = program Api_safe_join" "isQueueActive q" "prefix P0 (pending q)"
    with thr show ?thesis
      by (simp add: owner_step_def sj_inv_def isQueueRunning_def pending_def in_flight_def)
  next
    assume "owner q = [P_poll_empty, P_set_stop, P_notify, P_wait_stop]" "prefix P0 (pending q)"
    with thr show ?thesis
      by (auto simp: owner_step_def sj_inv_def pending_def in_flight_def)
  next
    assume "owner q = [P_set_stop, P_notify, P_wait_stop]" "prefix P0 (delivered q @ in_flight q)"
    with thr show ?thesis
      by (simp add: owner_step_def sj_inv_def in_flight_def)
  next
    assume "owner q = [P_notify, P_wait_stop]" "prefix P0 (delivered q @ in_flight q)"
    with thr show ?thesis
      by (simp add: owner_step_def sj_inv_def frame_notify in_flight_def
          notify_all_queue_def split: option.splits exec_pc.splits)
  next
    assume "owner q = [P_wait_stop]" "prefix P0 (delivered q @ in_flight q)"
    with thr show ?thesis
      by (auto simp: owner_step_def sj_inv_def split: call.splits)
  qed
qed

lemma sj_inv_exec:
  assumes "sj_inv P0 q" and "\<forall>c. a \<noteq> Call c"
  shows "sj_inv P0 (exec_queue a q)"
  using assms
  by (cases a)
     (auto simp: exec_queue_def sj_inv_worker sj_inv_post sj_inv_notify sj_inv_owner)

lemma sj_inv_run:
  "sj_inv P0 q \<Longrightarrow> \<forall>c. Call c \<notin> set sch \<Longrightarrow> sj_inv P0 (run_queue sch q)"
proof (induction sch arbitrary: q)
  case Nil
  then show ?case by (simp add: run_queue_def)
next
  case (Cons a sch)
  from Cons.prems(2) have a: "\<forall>c. a \<noteq> Call c" and sch: "\<forall>c. Call c \<notin> set sch" by auto
  from Cons.IH [OF sj_inv_exec [OF Cons.prems(1) a] sch] show ?case
    by (simp add: run_queue_Cons)
qed

lemma owner_returns:
  assumes "owner q = [P_wait_stop]" and "owner (exec_queue a q) = []"
  shows "\<not> queue_fault q \<and> a = Owner \<and>
         (\<exists>q1. WaitForQueueStop q = Returns q1 \<and> exec_queue a q = q1\<lparr>owner := []\<rparr>)"
proof (cases "queue_fault q")
  case True
  with assms show ?thesis by (simp add: exec_queue_def)
next
  case False
  with assms show ?thesis
    by (cases a)
       (auto simp: exec_queue_def frame_worker frame_notify postMessage_push_def owner_step_def
          split: call.splits)
qed

lemma owner_shrinks:
  assumes "sj_inv P0 q" and "owner q \<noteq> []" and "owner (exec_queue a q) = []"
  shows "owner q = [P_wait_stop]"
proof (cases "queue_fault q")
  case True
  with assms show ?thesis by (simp add: exec_queue_def)
next
  case False
  show ?thesis
  proof (cases a)
    case Owner
    with assms False show ?thesis
      by (auto simp: sj_inv_def exec_queue_def owner_step_def isQueueRunning_def frame_notify
          split: if_splits call.splits)
  qed (use assms False in \<open>auto simp: exec_queue_def frame_worker frame_notify
         postMessage_push_def\<close>)
qed

text \<open>
  C2, amended. \<^verbatim>\<open>safe_join\<close> is called on a queue that is running
  (\<^verbatim>\<open>isQueueRunning\<close> true, thread handle joinable), and only posts,
  notifications and steps of the two threads happen during the call. At the
  step in which the call returns, the thread has returned and has been
  joined, the backlog is empty, and every item that was in the backlog or in
  flight when the call began has been handed to \<^verbatim>\<open>msgProc\<close>.
\<close>

theorem safe_join_drains:
  assumes run: "isQueueRunning q0" and thr: "queue_thread q0 \<noteq> None"
    and call: "owner q0 = program Api_safe_join"
    and sch: "\<forall>c. Call c \<notin> set sch"
    and before: "owner (run_queue sch q0) \<noteq> []"
    and after: "owner (exec_queue a (run_queue sch q0)) = []"
  shows "QueuedMessage (exec_queue a (run_queue sch q0)) = [] \<and>
         (\<exists>r. queue_thread (run_queue sch q0) = Some (Q_returned r)) \<and>
         queue_thread (exec_queue a (run_queue sch q0)) = None \<and>
         \<not> isQueueRunning (exec_queue a (run_queue sch q0)) \<and>
         \<not> queue_fault (exec_queue a (run_queue sch q0)) \<and>
         prefix (delivered q0 @ in_flight q0 @ QueuedMessage q0)
                (delivered (exec_queue a (run_queue sch q0)))"
proof -
  let ?q = "run_queue sch q0"
  have "sj_inv (pending q0) q0"
    using run thr call by (simp add: sj_inv_def isQueueRunning_def)
  from sj_inv_run [OF this sch] have inv: "sj_inv (pending q0) ?q" .
  from owner_shrinks [OF inv before after] have ow: "owner ?q = [P_wait_stop]" .
  from owner_returns [OF ow after] obtain q1 where nf: "\<not> queue_fault ?q"
    and w: "WaitForQueueStop ?q = Returns q1"
    and e: "exec_queue a ?q = q1\<lparr>owner := []\<rparr>" by blast
  from inv ow have t: "queue_thread ?q \<noteq> None"
    and p: "prefix (pending q0) (delivered ?q @ in_flight ?q)"
    by (auto simp: sj_inv_def)
  from t w nf obtain r where r: "queue_thread ?q = Some (Q_returned r)"
    and q1: "q1 = ?q\<lparr>queue_thread := None, isQueueActive := False, QueueStop := False,
                    QueuedMessage := []\<rparr>"
    by (auto simp: WaitForQueueStop_def split: option.splits exec_pc.splits if_splits)
  from r have "in_flight ?q = []" by (simp add: in_flight_def)
  with p have "prefix (pending q0) (delivered ?q)" by simp
  with r nf show ?thesis unfolding e q1
    by (simp add: isQueueRunning_def pending_def)
qed


subsection \<open>A processing function that fails\<close>

lemma failed_with_exec:
  assumes "failed_with ds q" and "\<forall>c. a \<noteq> Call c"
  shows "failed_with ds (exec_queue a q)"
  using assms
  by (cases a)
     (auto simp: failed_with_def exec_queue_def queue_exec_process_def postMessage_push_def
        notify_all_queue_def owner_step_def)

lemma failed_with_run:
  "failed_with ds q \<Longrightarrow> \<forall>c. Call c \<notin> set sch \<Longrightarrow> failed_with ds (run_queue sch q)"
proof (induction sch arbitrary: q)
  case Nil
  then show ?case by (simp add: run_queue_def)
next
  case (Cons a sch)
  from Cons.prems(2) have a: "\<forall>c. a \<noteq> Call c" and sch: "\<forall>c. Call c \<notin> set sch" by auto
  from Cons.IH [OF failed_with_exec [OF Cons.prems(1) a] sch] show ?case
    by (simp add: run_queue_Cons)
qed

text \<open>
  C5, amended. When \<^verbatim>\<open>msgProc\<close> answers anything but \<^verbatim>\<open>GOOD\<close> on an item, the
  thread returns \<^verbatim>\<open>ERROR\<close> at once, leaving the backlog as it is; whatever is
  posted or notified afterwards, nothing more is handed to \<^verbatim>\<open>msgProc\<close>,
  \<^verbatim>\<open>isQueueRunning\<close> stays true and \<^verbatim>\<open>start_queue_process\<close> answers
  \<^verbatim>\<open>ERROR\<close>. This lasts only until \<^verbatim>\<open>WaitForQueueStop\<close>, which returns
  without blocking, empties the backlog and clears the flag; after it
  \<^verbatim>\<open>start_queue_process\<close> answers \<^verbatim>\<open>GOOD\<close> and spawns a new thread.
\<close>

theorem fatal_stops_worker:
  assumes proc: "msgProc q = Some f" and fatal: "f x \<noteq> GOOD"
    and pc: "queue_thread q = Some (Q_process x)"
    and ok: "\<not> queue_fault q" "isQueueRunning q" "owner q = []"
    and sch: "\<forall>c. Call c \<notin> set sch"
  shows "queue_thread (exec_queue Worker q) = Some (Q_returned ERROR) \<and>
         QueuedMessage (exec_queue Worker q) = QueuedMessage q \<and>
         queue_thread (run_queue sch (exec_queue Worker q)) = Some (Q_returned ERROR) \<and>
         delivered (run_queue sch (exec_queue Worker q)) = delivered q @ [x] \<and>
         isQueueRunning (run_queue sch (exec_queue Worker q)) \<and>
         start_queue_process (run_queue sch (exec_queue Worker q)) =
           (ERROR, run_queue sch (exec_queue Worker q)) \<and>
         (\<exists>q2. WaitForQueueStop (run_queue sch (exec_queue Worker q)) = Returns q2 \<and>
               QueuedMessage q2 = [] \<and> \<not> isQueueRunning q2 \<and>
               start_queue_process q2 =
                 (GOOD, q2\<lparr>QueueStop := False, queue_thread := Some Q_test_proc,
                            isQueueActive := True\<rparr>))"
proof -
  have step: "exec_queue Worker q =
      q\<lparr>delivered := delivered q @ [x], queue_thread := Some (Q_returned ERROR)\<rparr>"
    using proc fatal pc ok
    by (simp add: exec_queue_def queue_exec_process_def tristate_not_def)
  then have "failed_with (delivered q @ [x]) (exec_queue Worker q)"
    using proc ok by (simp add: failed_with_def isQueueRunning_def)
  from failed_with_run [OF this sch]
  have f: "failed_with (delivered q @ [x]) (run_queue sch (exec_queue Worker q))" .
  then have "WaitForQueueStop (run_queue sch (exec_queue Worker q)) =
      Returns ((run_queue sch (exec_queue Worker q))\<lparr>queue_thread := None,
        isQueueActive := False, QueueStop := False, QueuedMessage := []\<rparr>)"
    by (simp add: failed_with_def WaitForQueueStop_def)
  with f step show ?thesis
    by (auto simp: failed_with_def isQueueRunning_def start_queue_process_def)
qed


subsection \<open>Concrete runs of the queue\<close>

lemmas queue_eval =
  run_queue_def exec_queue_def queue_exec_process_def owner_step_def start_queue_process_def
  WaitForQueueStop_def notify_all_queue_def postMessage_push_def isQueueRunning_def
  queued_process_ctor_def tristate_not_def post_all_def posted_then_started_def
  always_good_def fatal_on_2_def

lemma stopped_early_eq:
  "stopped_early =
   (queued_process_ctor (Some always_good))\<lparr>QueuedMessage := [1], isUpdated := True,
      QueueStop := True, queue_thread := Some (Q_returned GOOD), isQueueActive := True\<rparr>"
  by (simp add: stopped_early_def queue_eval)

lemma stopped_after_post_eq:
  "stopped_after_post =
   (queued_process_ctor (Some always_good))\<lparr>QueuedMessage := [1], QueueStop := True,
      queue_thread := Some (Q_returned GOOD), isQueueActive := True\<rparr>"
  by (simp add: stopped_after_post_def queue_eval)

text \<open>
  C1. Two runs in which \<^verbatim>\<open>msgProc\<close> never fails and \<^verbatim>\<open>stopQueue\<close> is called
  with item 1 in the backlog: in the first the call comes before the thread
  has tested \<^verbatim>\<open>QueueStop\<close> for the first time, in the second the thread was
  idle and has just been woken by the post. In both the thread returns
  \<^verbatim>\<open>GOOD\<close> with item 1 still in the backlog and nothing handed to
  \<^verbatim>\<open>msgProc\<close>.
\<close>

theorem stopQueue_abandons_backlog:
  "queue_thread stopped_early = Some (Q_returned GOOD) \<and> QueuedMessage stopped_early = [1] \<and>
   delivered stopped_early = [] \<and> QueueStop stopped_early \<and>
   queue_exec_process stopped_early = stopped_early \<and>
   queue_thread stopped_after_post = Some (Q_returned GOOD) \<and>
   QueuedMessage stopped_after_post = [1] \<and> delivered stopped_after_post = [] \<and>
   queue_exec_process stopped_after_post = stopped_after_post"
  by (simp add: stopped_early_eq stopped_after_post_eq queued_process_ctor_def
      queue_exec_process_def)

lemma fourteen_steps:
  "run_queue [Worker, Worker, Worker, Worker, Worker, Worker, Worker, Notify, Worker, Worker,
      Worker, Worker, Worker, Worker, Worker] (posted_then_started always_good [1, 2, 3]) =
   (queued_process_ctor (Some always_good))\<lparr>queue_thread := Some Q_test_stop,
      isQueueActive := True, delivered := [1, 2, 3]\<rparr>"
  by (simp add: queue_eval)

theorem fifo_order_witness:
  "(\<forall>x. always_good x = GOOD) \<and>
   set [Worker, Worker, Worker, Worker, Worker, Worker, Worker, Notify, Worker, Worker,
        Worker, Worker, Worker, Worker, Worker] \<subseteq> {Worker, Notify :: nat queue_action} \<and>
   3 * length [1, 2, 3 :: nat] + 5 \<le>
     count_list [Worker, Worker, Worker, Worker, Worker, Worker, Worker, Notify, Worker, Worker,
        Worker, Worker, Worker, Worker, Worker :: nat queue_action] Worker \<and>
   delivered (run_queue [Worker, Worker, Worker, Worker, Worker, Worker, Worker, Notify, Worker,
        Worker, Worker, Worker, Worker, Worker, Worker]
      (posted_then_started always_good [1, 2, 3])) = [1, 2, 3]"
  using fifo_order [of always_good
      "[Worker, Worker, Worker, Worker, Worker, Worker, Worker, Notify, Worker, Worker,
        Worker, Worker, Worker, Worker, Worker]" "[1, 2, 3]"]
  by (simp add: always_good_def)

lemma never_started_eq:
  "never_started =
   (queued_process_ctor (Some always_good))\<lparr>QueuedMessage := [1], isUpdated := True,
      owner := program Api_safe_join\<rparr>"
  by (simp add: never_started_def queue_eval)

lemma discarded_then_joined_eq:
  "discarded_then_joined =
   (queued_process_ctor (Some always_good))\<lparr>isUpdated := True, QueueStop := True,
      queue_thread := Some (Q_returned GOOD), isQueueActive := True,
      owner := [P_wait_stop]\<rparr>"
  by (simp add: discarded_then_joined_def queue_eval)

text \<open>
  C2 as stated fails. On a queue that was never started \<^verbatim>\<open>safe_join\<close> returns
  at its first test, with the item posted before the call still in the backlog
  and never handed to \<^verbatim>\<open>msgProc\<close>. And on a running queue an item posted
  before the call, but discarded by an earlier \<^verbatim>\<open>force_join\<close>, is not handed to
  \<^verbatim>\<open>msgProc\<close> either.
\<close>

theorem safe_join_not_running_counterexample:
  "owner never_started = program Api_safe_join \<and>
   owner (exec_queue Owner never_started) = [] \<and>
   QueuedMessage (exec_queue Owner never_started) = [1] \<and>
   delivered (exec_queue Owner never_started) = [] \<and>
   queue_thread (exec_queue Owner never_started) = None \<and>
   owner discarded_then_joined = [P_wait_stop] \<and>
   owner (exec_queue Owner discarded_then_joined) = [] \<and>
   delivered (exec_queue Owner discarded_then_joined) = []"
  by (simp add: never_started_eq discarded_then_joined_eq queue_eval)

lemma drain_start_eq:
  "drain_start =
   (queued_process_ctor (Some always_good))\<lparr>queue_thread := Some (Q_process 1),
      isQueueActive := True, owner := program Api_safe_join\<rparr>"
  by (simp add: drain_start_def queue_eval)

lemma drain_run_eq:
  "run_queue drain_schedule drain_start =
   (queued_process_ctor (Some always_good))\<lparr>QueueStop := True,
      queue_thread := Some (Q_returned GOOD), isQueueActive := True, delivered := [1],
      owner := [P_wait_stop]\<rparr>"
  by (simp add: drain_start_eq drain_schedule_def queue_eval)

theorem safe_join_drains_witness:
  "isQueueRunning drain_start \<and> queue_thread drain_start \<noteq> None \<and>
   owner drain_start = program Api_safe_join \<and>
   (\<forall>c. Call c \<notin> set drain_schedule) \<and>
   owner (run_queue drain_schedule drain_start) \<noteq> [] \<and>
   owner (exec_queue Owner (run_queue drain_schedule drain_start)) = [] \<and>
   in_flight drain_start = [1] \<and>
   QueuedMessage (exec_queue Owner (run_queue drain_schedule drain_start)) = [] \<and>
   queue_thread (exec_queue Owner (run_queue drain_schedule drain_start)) = None \<and>
   prefix (delivered drain_start @ in_flight drain_start @ QueuedMessage drain_start)
     (delivered (exec_queue Owner (run_queue drain_schedule drain_start)))"
proof -
  have h: "isQueueRunning drain_start" "queue_thread drain_start \<noteq> None"
    "owner drain_start = program Api_safe_join" "\<forall>c. Call c \<notin> set drain_schedule"
    "owner (run_queue drain_schedule drain_start) \<noteq> []"
    "owner (exec_queue Owner (run_queue drain_schedule drain_start)) = []"
    by (simp_all add: drain_run_eq, simp_all add: drain_start_eq drain_schedule_def queue_eval)
  have i: "in_flight drain_start = [1]"
    by (simp add: drain_start_eq in_flight_def queued_process_ctor_def)
  from safe_join_drains [OF h] h i show ?thesis by simp
qed

lemma before_fatal_eq:
  "before_fatal =
   (queued_process_ctor (Some fatal_on_2))\<lparr>QueuedMessage := [3],
      queue_thread := Some (Q_process 2), isQueueActive := True, delivered := [1]\<rparr>"
  by (simp add: before_fatal_def queue_eval)

theorem fatal_stops_worker_witness:
  "msgProc before_fatal = Some fatal_on_2 \<and> fatal_on_2 2 \<noteq> GOOD \<and>
   queue_thread before_fatal = Some (Q_process 2) \<and> \<not> queue_fault before_fatal \<and>
   isQueueRunning before_fatal \<and> owner before_fatal = [] \<and>
   (\<forall>c. Call c \<notin> set [Worker, Post 4, Notify, Worker :: nat queue_action]) \<and>
   QueuedMessage (exec_queue Worker before_fatal) = [3] \<and>
   delivered (run_queue [Worker, Post 4, Notify, Worker] (exec_queue Worker before_fatal)) =
     [1, 2] \<and>
   queue_thread (run_queue [Worker, Post 4, Notify, Worker] (exec_queue Worker before_fatal)) =
     Some (Q_returned ERROR)"
proof -
  have h: "msgProc before_fatal = Some fatal_on_2" "fatal_on_2 2 \<noteq> GOOD"
    "queue_thread before_fatal = Some (Q_process 2)" "\<not> queue_fault before_fatal"
    "isQueueRunning before_fatal" "owner before_fatal = []"
    "\<forall>c. Call c \<notin> set [Worker, Post 4, Notify, Worker :: nat queue_action]"
    by (simp_all add: before_fatal_eq queued_process_ctor_def fatal_on_2_def isQueueRunning_def)
  have d: "delivered before_fatal = [1]" "QueuedMessage before_fatal = [3]"
    by (simp_all add: before_fatal_eq queued_process_ctor_def)
  from fatal_stops_worker [OF h] h d show ?thesis by simp
qed

lemma restarted_eq:
  "restarted =
   (queued_process_ctor (Some fatal_on_2))\<lparr>queue_thread := Some Q_recheck,
      isQueueActive := True, delivered := [1, 2, 4]\<rparr>"
  by (simp add: restarted_def before_fatal_eq queue_eval)

text \<open>
  C5 as stated fails: after \<^verbatim>\<open>msgProc\<close> has failed on item 2, the same queue
  is joined and started again, and the new thread handles item 4.
\<close>

theorem fatal_restart_counterexample:
  "delivered before_fatal = [1] \<and>
   queue_thread (exec_queue Worker before_fatal) = Some (Q_returned ERROR) \<and>
   delivered restarted = [1, 2, 4] \<and> queue_thread restarted = Some Q_recheck \<and>
   isQueueRunning restarted \<and> \<not> queue_fault restarted"
  by (simp add: restarted_eq before_fatal_eq queue_eval)

subsection \<open>Starting twice\<close>

text \<open>
  C8, the queue. A second \<^verbatim>\<open>start_queue_process\<close> with no
  \<^verbatim>\<open>WaitForQueueStop\<close> in between answers \<^verbatim>\<open>ERROR\<close> and changes nothing.
\<close>

lemma second_start_queue_process:
  assumes "start_queue_process q = (GOOD, q1)" and "\<not> queue_fault q1"
  shows "start_queue_process q1 = (ERROR, q1)"
  using assms
  by (auto simp: start_queue_process_def isQueueRunning_def split: if_splits)

end
